theory Spec2Isabelle
  imports Main "HOL-Library.Multiset" "HOL-Library.Sublist"
begin

section \<open>Maze solver: grid, frontier heap and best-first search\<close>

text \<open>
  The development embeds the maze-solver notebook: class \<open>Node\<close>, class \<open>Maze\<close> with
  \<open>__init__\<close>, \<open>neighbors\<close>, \<open>heuristic\<close> and \<open>solve\<close>, and the two functions of Python's
  \<open>heapq\<close> module that \<open>solve\<close> calls. Plotting (\<open>visualize\<close>, \<open>_draw_*\<close>) only draws and
  is left out.

  Conventions. Cell coordinates are Python integers (\<open>int\<close>): \<open>j - 1\<close> and \<open>i - 1\<close> can be
  \<open>-1\<close>. Path costs and heuristic values start at \<open>0\<close> and are only ever incremented, added and
  compared, so they are \<open>nat\<close>. A string is a list of characters with code points below 256.
  The failures of \<open>__init__\<close> and \<open>solve\<close> are all Python \<open>ValueError\<close>s; the error type
  tells them apart by where they are raised.
\<close>

subsection \<open>Errors\<close>

datatype error =
    MalformedGrid      \<comment> \<open>\<open>ValueError\<close> out of \<open>Maze.__init__\<close>\<close>
  | InvalidStrategy    \<comment> \<open>\<open>ValueError("Algorithm must be either 'a*' or 'greedy'")\<close>\<close>
  | NoPathError        \<comment> \<open>\<open>ValueError("No path exists from start to goal")\<close>\<close>
  | IndexError         \<comment> \<open>\<open>heapq.heappop\<close> on an empty list\<close>

subsection \<open>String operations used by the program\<close>

text \<open>\<open>str.lower\<close> on code points below 256: A-Z and the capital letters of Latin-1
  (0xC0-0xDE without the multiplication sign 0xD7) move up by 32.\<close>

definition lower_char :: "char \<Rightarrow> char" where
  "lower_char c =
     (let n = (of_char c :: nat)
      in if (65 \<le> n \<and> n \<le> 90) \<or> (192 \<le> n \<and> n \<le> 222 \<and> n \<noteq> 215)
         then char_of (n + 32) else c)"

definition lower :: "string \<Rightarrow> string" where
  "lower s = map lower_char s"

text \<open>\<open>str.isspace\<close> on code points below 256, and \<open>str.strip()\<close>.\<close>

definition isspace :: "char \<Rightarrow> bool" where
  "isspace c =
     (let n = (of_char c :: nat)
      in (9 \<le> n \<and> n \<le> 13) \<or> (28 \<le> n \<and> n \<le> 32) \<or> n = 133 \<or> n = 160)"

definition strip :: "string \<Rightarrow> string" where
  "strip s = rev (dropWhile isspace (rev (dropWhile isspace s)))"

text \<open>\<open>s.split('\n')\<close>: the pieces between line feeds, empty pieces included.\<close>

fun split_nl :: "string \<Rightarrow> string list" where
  "split_nl [] = [[]]"
| "split_nl (c # cs) =
     (if c = CHR 0x0A then [] # split_nl cs
      else (case split_nl cs of [] \<Rightarrow> [[c]] | l # ls \<Rightarrow> (c # l) # ls))"

subsection \<open>class Node\<close>

type_synonym cell = "int \<times> int"

datatype Node =
  Node (state: cell) (parent: "Node option") (action: "string option")
       (cost: nat) (node_heuristic: nat)

text \<open>The field \<open>heuristic\<close> of a node is \<open>node_heuristic\<close> here, \<open>heuristic\<close> being the
  method of \<open>Maze\<close>. \<open>Node.__lt__\<close> is the comparison \<open>heapq\<close> orders the frontier by.\<close>

definition Node_lt :: "Node \<Rightarrow> Node \<Rightarrow> bool" where
  "Node_lt self other \<longleftrightarrow>
     cost self + node_heuristic self < cost other + node_heuristic other"

subsection \<open>heapq\<close>

text \<open>
  \<open>heapq.heappush\<close> and \<open>heapq.heappop\<close> as the standard library implements them: a binary
  heap in a list, \<open>_siftdown\<close> moving an item towards the root and \<open>_siftup\<close> moving the
  hole at the root down to a leaf and then sifting the item back. Every comparison is
  \<open>Node.__lt__\<close>.
\<close>

function siftdown_loop :: "Node list \<Rightarrow> nat \<Rightarrow> nat \<Rightarrow> Node \<Rightarrow> Node list" where
  "siftdown_loop heap startpos pos newitem =
     (if pos > startpos then
        (let parentpos = (pos - 1) div 2;
             parent = heap ! parentpos
         in if Node_lt newitem parent
            then siftdown_loop (heap[pos := parent]) startpos parentpos newitem
            else heap[pos := newitem])
      else heap[pos := newitem])"
  by pat_completeness auto
termination
  by (relation "measure (\<lambda>(heap, startpos, pos, newitem). pos)") auto

definition siftdown :: "Node list \<Rightarrow> nat \<Rightarrow> nat \<Rightarrow> Node list" where
  "siftdown heap startpos pos = siftdown_loop heap startpos pos (heap ! pos)"

function siftup_loop :: "Node list \<Rightarrow> nat \<Rightarrow> nat \<Rightarrow> nat \<Rightarrow> Node list \<times> nat" where
  "siftup_loop heap pos childpos endpos =
     (if childpos < endpos then
        (let rightpos = childpos + 1;
             childpos' = (if rightpos < endpos \<and> \<not> Node_lt (heap ! childpos) (heap ! rightpos)
                          then rightpos else childpos)
         in siftup_loop (heap[pos := heap ! childpos']) childpos' (2 * childpos' + 1) endpos)
      else (heap, pos))"
  by pat_completeness auto
termination
  by (relation "measure (\<lambda>(heap, pos, childpos, endpos). endpos - childpos)") auto

definition siftup :: "Node list \<Rightarrow> nat \<Rightarrow> Node list" where
  "siftup heap pos =
     (let endpos = length heap;
          startpos = pos;
          newitem = heap ! pos
      in case siftup_loop heap pos (2 * pos + 1) endpos of
           (heap', pos') \<Rightarrow> siftdown (heap'[pos' := newitem]) startpos pos')"

definition heappush :: "Node list \<Rightarrow> Node \<Rightarrow> Node list" where
  "heappush heap item = siftdown (heap @ [item]) 0 (length heap)"

text \<open>\<open>heappop\<close> returns the popped item and the list it leaves; \<open>Inl IndexError\<close> on an
  empty list.\<close>

definition heappop :: "Node list \<Rightarrow> error + (Node \<times> Node list)" where
  "heappop heap =
     (if heap = [] then Inl IndexError
      else (let lastelt = last heap;
                heap' = butlast heap
            in if heap' \<noteq> []
               then Inr (heap' ! 0, siftup (heap'[0 := lastelt]) 0)
               else Inr (lastelt, heap')))"

subsection \<open>class Maze\<close>

record Maze =
  maze :: "char list list"
  height :: int
  width :: int
  start :: cell
  goal :: cell

text \<open>The double loop of \<open>__init__\<close> over \<open>range(height)\<close> and \<open>range(width)\<close>: a later
  \<open>'A'\<close> or \<open>'B'\<close> overwrites an earlier one.\<close>

definition scan_cell :: "char list list \<Rightarrow> nat \<times> nat \<Rightarrow> cell option \<times> cell option
                         \<Rightarrow> cell option \<times> cell option" where
  "scan_cell g p sg =
     (case p of (i, j) \<Rightarrow>
        if g ! i ! j = CHR ''A'' then (Some (int i, int j), snd sg)
        else if g ! i ! j = CHR ''B'' then (fst sg, Some (int i, int j))
        else sg)"

definition scan :: "char list list \<Rightarrow> nat \<Rightarrow> nat \<Rightarrow> cell option \<times> cell option" where
  "scan g h w =
     fold (scan_cell g) (concat (map (\<lambda>i. map (\<lambda>j. (i, j)) [0..<w]) [0..<h])) (None, None)"

text \<open>
  \<open>Maze.__init__\<close>. \<open>np.array\<close> of the kept lines has a two-dimensional shape only if there
  is a line and all lines are equally long; otherwise \<open>np.array\<close> or the unpacking of
  \<open>shape\<close> raises \<open>ValueError\<close>.
\<close>

definition Maze_init :: "string \<Rightarrow> error + Maze" where
  "Maze_init maze_str =
     (let rows = filter (\<lambda>line. strip line \<noteq> []) (split_nl maze_str)
      in if rows = [] \<or> list_ex (\<lambda>r. length r \<noteq> length (hd rows)) rows
         then Inl MalformedGrid
         else (let h = length rows;
                   w = length (hd rows)
               in case scan rows h w of
                    (Some s, Some g) \<Rightarrow>
                      Inr \<lparr>maze = rows, height = int h, width = int w, start = s, goal = g\<rparr>
                  | _ \<Rightarrow> Inl MalformedGrid))"

text \<open>\<open>Maze.neighbors\<close>. The index \<open>maze[ni, nj]\<close> is read only after the bounds test
  (\<open>and\<close> short-circuits), so it is in range for a maze built by \<open>Maze_init\<close>.\<close>

definition neighbors :: "Maze \<Rightarrow> cell \<Rightarrow> (string \<times> cell) list" where
  "neighbors m st =
     (case st of (i, j) \<Rightarrow>
        (let directions =
               [(''right'', (i, j + 1)),
                (''down'', (i + 1, j)),
                (''left'', (i, j - 1)),
                (''up'', (i - 1, j))]
         in filter (\<lambda>(action, (ni, nj)).
                      0 \<le> ni \<and> ni < height m \<and> 0 \<le> nj \<and> nj < width m \<and>
                      maze m ! nat ni ! nat nj \<noteq> CHR ''#'')
                   directions))"

text \<open>\<open>Maze.heuristic\<close>: Manhattan distance to the goal.\<close>

definition heuristic :: "Maze \<Rightarrow> cell \<Rightarrow> nat" where
  "heuristic m st = nat \<bar>fst st - fst (goal m)\<bar> + nat \<bar>snd st - snd (goal m)\<bar>"

subsection \<open>Maze.solve\<close>

record search_state =
  frontier :: "Node list"
  visited :: "cell \<rightharpoonup> nat"
  all_visited :: "cell set"

text \<open>What \<open>solve\<close> returns: \<open>(path, actions), all_visited\<close>. The actions are the \<open>action\<close>
  fields of the nodes on the path, the start node left out.\<close>

type_synonym solution = "(cell list \<times> string option list) \<times> cell set"

datatype loop_step = Done "error + solution" | Next search_state

text \<open>The path reconstruction loop \<open>while node.parent is not None\<close>.\<close>

fun walk_parents :: "Node \<Rightarrow> cell list \<Rightarrow> string option list
                     \<Rightarrow> cell list \<times> string option list" where
  "walk_parents (Node s None a c h) path actions = (path, actions)"
| "walk_parents (Node s (Some p) a c h) path actions =
     walk_parents p (path @ [s]) (actions @ [a])"

definition reconstruct :: "Maze \<Rightarrow> Node \<Rightarrow> cell list \<times> string option list" where
  "reconstruct m current_node =
     (case walk_parents current_node [] [] of
        (path, actions) \<Rightarrow> (rev (path @ [start m]), rev actions))"

text \<open>The body of \<open>for action, neighbor_state in self.neighbors(...)\<close>. The local
  \<open>priority\<close> is computed as in the source and, as in the source, not used.\<close>

definition relax :: "Maze \<Rightarrow> string \<Rightarrow> Node \<Rightarrow> string \<times> cell \<Rightarrow> search_state
                     \<Rightarrow> search_state" where
  "relax m algorithm current_node an st =
     (case an of (act, neighbor_state) \<Rightarrow>
        (let new_cost = cost current_node + 1
         in if (case visited st neighbor_state of None \<Rightarrow> True | Some c \<Rightarrow> new_cost < c)
            then
              (let priority = (if lower algorithm = ''greedy''
                               then heuristic m neighbor_state
                               else new_cost + heuristic m neighbor_state);
                   neighbor_node = Node neighbor_state (Some current_node) (Some act)
                                        new_cost (heuristic m neighbor_state)
               in st\<lparr>visited := (visited st)(neighbor_state \<mapsto> new_cost),
                     all_visited := insert neighbor_state (all_visited st),
                     frontier := heappush (frontier st) neighbor_node\<rparr>)
            else st))"

text \<open>One iteration of \<open>while frontier\<close>: either the call ends (\<open>Done\<close>) or the loop goes
  on with a new state (\<open>Next\<close>).\<close>

definition loop_body :: "Maze \<Rightarrow> string \<Rightarrow> search_state \<Rightarrow> loop_step" where
  "loop_body m algorithm st =
     (if frontier st = [] then Done (Inl NoPathError)
      else (case heappop (frontier st) of
              Inl e \<Rightarrow> Done (Inl e)
            | Inr (current_node, fr) \<Rightarrow>
                if state current_node = goal m
                then Done (Inr (reconstruct m current_node, all_visited st))
                else Next (fold (relax m algorithm current_node)
                                (neighbors m (state current_node))
                                (st\<lparr>frontier := fr\<rparr>))))"

text \<open>The cells of the grid, and the two quantities that bound the search: the cells
  without a recorded cost, and the sum of the recorded costs.\<close>

definition cells :: "Maze \<Rightarrow> cell set" where
  "cells m = {0..<height m} \<times> {0..<width m}"

definition unseen :: "Maze \<Rightarrow> search_state \<Rightarrow> nat" where
  "unseen m st = card (cells m - dom (visited st))"

definition total_cost :: "Maze \<Rightarrow> search_state \<Rightarrow> nat" where
  "total_cost m st = (\<Sum>c \<in> cells m \<inter> dom (visited st). the (visited st c))"

text \<open>The loop \<open>while frontier\<close>, and the states it passes through.\<close>

function search_loop :: "Maze \<Rightarrow> string \<Rightarrow> search_state \<Rightarrow> error + solution" where
  "search_loop m algorithm st =
     (case loop_body m algorithm st of
        Done r \<Rightarrow> r
      | Next st' \<Rightarrow> search_loop m algorithm st')"
  by pat_completeness auto

function search_states :: "Maze \<Rightarrow> string \<Rightarrow> search_state \<Rightarrow> search_state list" where
  "search_states m algorithm st =
     st # (case loop_body m algorithm st of
             Done r \<Rightarrow> []
           | Next st' \<Rightarrow> search_states m algorithm st')"
  by pat_completeness auto

text \<open>The state \<open>solve\<close> enters the loop with.\<close>

definition initial_state :: "Maze \<Rightarrow> search_state" where
  "initial_state m =
     (let start_node = Node (start m) None None 0 (heuristic m (start m))
      in \<lparr>frontier = heappush [] start_node,
          visited = [start m \<mapsto> 0],
          all_visited = {start m}\<rparr>)"

definition solve :: "Maze \<Rightarrow> string \<Rightarrow> error + solution" where
  "solve m algorithm =
     (if lower algorithm \<notin> set [''a*'', ''greedy''] then Inl InvalidStrategy
      else search_loop m algorithm (initial_state m))"

subsection \<open>Notions of the specification\<close>

text \<open>The priority keys of the specification: \<open>g + h\<close> and \<open>h\<close> alone.\<close>

definition f_key :: "Node \<Rightarrow> nat" where
  "f_key n = cost n + node_heuristic n"

definition h_key :: "Node \<Rightarrow> nat" where
  "h_key n = node_heuristic n"

text \<open>A cell is open when it lies in the grid and is not a wall; two cells are adjacent
  when \<open>neighbors\<close> lists the second for the first.\<close>

definition open_cell :: "Maze \<Rightarrow> cell \<Rightarrow> bool" where
  "open_cell m c \<longleftrightarrow>
     0 \<le> fst c \<and> fst c < height m \<and> 0 \<le> snd c \<and> snd c < width m \<and>
     maze m ! nat (fst c) ! nat (snd c) \<noteq> CHR ''#''"

definition adjacent :: "Maze \<Rightarrow> cell \<Rightarrow> cell \<Rightarrow> bool" where
  "adjacent m a b \<longleftrightarrow> b \<in> snd ` set (neighbors m a)"

text \<open>A route: a non-empty sequence of cells from the start to the goal in which each
  cell is adjacent to the one before it. Its number of steps is its length less one.\<close>

definition route :: "Maze \<Rightarrow> cell list \<Rightarrow> bool" where
  "route m p \<longleftrightarrow>
     p \<noteq> [] \<and> hd p = start m \<and> last p = goal m \<and> successively (adjacent m) p"

definition steps :: "cell list \<Rightarrow> nat" where
  "steps p = length p - 1"

text \<open>The states that were in the frontier at some point of a run.\<close>

definition pushed_states :: "search_state list \<Rightarrow> cell set" where
  "pushed_states sts = (\<Union>st \<in> set sts. state ` set (frontier st))"

text \<open>The three conditions of the specification on the text of a grid: the kept lines
  (those that are not blank), and the number of times a marker occurs in them.\<close>

definition grid_rows :: "string \<Rightarrow> string list" where
  "grid_rows maze_str = filter (\<lambda>line. strip line \<noteq> []) (split_nl maze_str)"

definition unequal_rows :: "string list \<Rightarrow> bool" where
  "unequal_rows rows \<longleftrightarrow> list_ex (\<lambda>r. list_ex (\<lambda>r'. length r \<noteq> length r') rows) rows"

definition marker_count :: "char \<Rightarrow> string list \<Rightarrow> nat" where
  "marker_count c rows = count_list (concat rows) c"

subsection \<open>Example grids\<close>

text \<open>The grid of the specification's scenario (start top left, goal bottom right, one wall
  in the centre) as text and as the maze \<open>Maze_init\<close> builds from it.\<close>

definition example_grid :: string where
  "example_grid = ''A..'' @ [CHR 0x0A] @ ''.#.'' @ [CHR 0x0A] @ ''..B''"

definition example_maze :: Maze where
  "example_maze = \<lparr>maze = [''A..'', ''.#.'', ''..B''], height = 3, width = 3,
                     start = (0, 0), goal = (2, 2)\<rparr>"

text \<open>A grid whose start and goal are separated by a wall.\<close>

definition walled_grid :: string where
  "walled_grid = ''A#B''"

definition walled_maze :: Maze where
  "walled_maze = \<lparr>maze = [''A#B''], height = 1, width = 3, start = (0, 0), goal = (0, 2)\<rparr>"

subsection \<open>Invariants of the frontier\<close>

text \<open>The parent of index \<open>i\<close> in the list is \<open>(i - 1) >> 1\<close>. A list is a heap when no
  item has a smaller key than its parent; it is a heap with a hole at \<open>pos\<close> when that holds
  for every pair that does not involve \<open>pos\<close>, and the parent of \<open>pos\<close> is not above the
  children of \<open>pos\<close>; an item fits below \<open>pos\<close> when it is not above those children.\<close>

abbreviation par :: "nat \<Rightarrow> nat" where "par i \<equiv> (i - 1) div 2"

definition is_heap :: "Node list \<Rightarrow> bool" where
  "is_heap xs \<longleftrightarrow> (\<forall>i. 0 < i \<and> i < length xs \<longrightarrow> f_key (xs ! par i) \<le> f_key (xs ! i))"

definition heap_hole :: "Node list \<Rightarrow> nat \<Rightarrow> bool" where
  "heap_hole xs pos \<longleftrightarrow>
     (\<forall>i. 0 < i \<and> i < length xs \<and> i \<noteq> pos \<and> par i \<noteq> pos \<longrightarrow> f_key (xs ! par i) \<le> f_key (xs ! i)) \<and>
     (\<forall>c. 0 < pos \<and> 0 < c \<and> c < length xs \<and> par c = pos \<longrightarrow> f_key (xs ! par pos) \<le> f_key (xs ! c))"

definition fits_below :: "Node list \<Rightarrow> nat \<Rightarrow> Node \<Rightarrow> bool" where
  "fits_below xs pos newitem \<longleftrightarrow>
     (\<forall>c. 0 < c \<and> c < length xs \<and> par c = pos \<longrightarrow> f_key newitem \<le> f_key (xs ! c))"

subsection \<open>Invariants of the search state\<close>

text \<open>
  The cells on the parent chain of a node, start first; a node is well formed when its
  chain begins at the start, each link is a move that \<open>neighbors\<close> offers, its cost is
  the number of links and its heuristic value is that of its cell.

  A recorded cost \<open>c\<close> of a cell is in the frontier when a frontier node has that cell and
  that cost; it is closed when the cell is not the goal and every neighbour has a
  recorded cost of at most \<open>c + 1\<close>. The invariant of the loop: the frontier is a heap of
  well-formed nodes over recorded cells, \<open>all_visited\<close> is the set of recorded cells, the
  start has cost 0, and every recorded cost is in the frontier or closed. While a node
  \<open>cur\<close> is expanded its own cost may be neither, and the neighbours done so far
  (\<open>D\<close>) have a cost of at most \<open>cost cur + 1\<close>.
\<close>

fun node_path :: "Node \<Rightarrow> cell list" where
  "node_path (Node s None a c h) = [s]"
| "node_path (Node s (Some p) a c h) = node_path p @ [s]"

fun node_ok :: "Maze \<Rightarrow> Node \<Rightarrow> bool" where
  "node_ok m (Node s None a c h) \<longleftrightarrow> s = start m \<and> c = 0 \<and> h = heuristic m s"
| "node_ok m (Node s (Some p) a c h) \<longleftrightarrow>
     node_ok m p \<and> (\<exists>act. a = Some act \<and> (act, s) \<in> set (neighbors m (state p))) \<and>
     c = cost p + 1 \<and> h = heuristic m s"

definition in_frontier :: "search_state \<Rightarrow> cell \<Rightarrow> nat \<Rightarrow> bool" where
  "in_frontier st v c \<longleftrightarrow> (\<exists>n \<in> set (frontier st). state n = v \<and> cost n = c)"

definition closed_cell :: "Maze \<Rightarrow> search_state \<Rightarrow> cell \<Rightarrow> nat \<Rightarrow> bool" where
  "closed_cell m st v c \<longleftrightarrow>
     v \<noteq> goal m \<and> (\<forall>w. adjacent m v w \<longrightarrow> (\<exists>c'. visited st w = Some c' \<and> c' \<le> c + 1))"

definition nodes_ok :: "Maze \<Rightarrow> search_state \<Rightarrow> bool" where
  "nodes_ok m st \<longleftrightarrow>
     (\<forall>n \<in> set (frontier st). node_ok m n \<and> set (node_path n) \<subseteq> dom (visited st)) \<and>
     all_visited st = dom (visited st) \<and>
     visited st (start m) = Some 0 \<and>
     is_heap (frontier st)"

definition search_inv :: "Maze \<Rightarrow> search_state \<Rightarrow> bool" where
  "search_inv m st \<longleftrightarrow>
     nodes_ok m st \<and>
     (\<forall>v c. visited st v = Some c \<longrightarrow> in_frontier st v c \<or> closed_cell m st v c)"

definition expanding :: "Maze \<Rightarrow> Node \<Rightarrow> cell set \<Rightarrow> search_state \<Rightarrow> bool" where
  "expanding m cur D st \<longleftrightarrow>
     nodes_ok m st \<and>
     node_ok m cur \<and> set (node_path cur) \<subseteq> dom (visited st) \<and>
     (\<forall>v c. visited st v = Some c \<longrightarrow>
        in_frontier st v c \<or> closed_cell m st v c \<or> (v = state cur \<and> c = cost cur)) \<and>
     (\<forall>w \<in> D. \<exists>c'. visited st w = Some c' \<and> c' \<le> cost cur + 1)"

text \<open>Progress of one iteration: fewer cells without a cost, or as many and a smaller sum
  of costs.\<close>

definition progress :: "Maze \<Rightarrow> search_state \<Rightarrow> search_state \<Rightarrow> bool" where
  "progress m st st' \<longleftrightarrow>
     unseen m st' < unseen m st \<or> (unseen m st' = unseen m st \<and> total_cost m st' < total_cost m st)"

section \<open>The search loop terminates\<close>

text \<open>
  The heap operations keep the length of the list; every neighbour lies in the grid; a
  push either gives a cell its first cost or lowers its cost. So an iteration that pushes
  makes progress, and one that does not push shortens the frontier.
\<close>

declare siftdown_loop.simps [simp del] siftup_loop.simps [simp del]

lemma length_siftdown_loop: "length (siftdown_loop heap startpos pos newitem) = length heap"
proof (induction heap startpos pos newitem rule: siftdown_loop.induct)
  case (1 heap startpos pos newitem)
  show ?case
    by (subst siftdown_loop.simps) (simp add: Let_def 1)
qed

lemma length_siftup_loop:
  "length (fst (siftup_loop heap pos childpos endpos)) = length heap"
proof (induction heap pos childpos endpos rule: siftup_loop.induct)
  case (1 heap pos childpos endpos)
  show ?case
  proof (cases "childpos < endpos")
    case True
    show ?thesis
      using "1.IH" [OF True refl refl] True
      by (subst siftup_loop.simps) (auto simp: Let_def split: if_splits)
  next
    case False
    then show ?thesis
      by (subst siftup_loop.simps) simp
  qed
qed

lemma length_siftdown: "length (siftdown heap startpos pos) = length heap"
  by (simp add: siftdown_def length_siftdown_loop)

lemma length_siftup: "length (siftup heap pos) = length heap"
  using length_siftup_loop [of heap pos "2 * pos + 1" "length heap"]
  by (auto simp: siftup_def Let_def length_siftdown split: prod.splits)

lemma length_heappush: "length (heappush heap item) = Suc (length heap)"
  by (simp add: heappush_def length_siftdown)

lemma length_heappop: "heappop heap = Inr (x, fr) \<Longrightarrow> Suc (length fr) = length heap"
  by (cases heap rule: rev_cases) (auto simp: heappop_def Let_def length_siftup split: if_splits)

lemma neighbors_in_cells: "(a, c) \<in> set (neighbors m st) \<Longrightarrow> c \<in> cells m"
  by (cases st) (auto simp: neighbors_def cells_def simp del: filter.simps)

lemma finite_cells: "finite (cells m)"
  by (simp add: cells_def)

lemma progress_trans: "progress m a b \<Longrightarrow> progress m b c \<Longrightarrow> progress m a c"
  by (auto simp: progress_def)

lemma relax_progress:
  assumes "c \<in> cells m"
  shows "relax m alg cur (a, c) st = st \<or> progress m st (relax m alg cur (a, c) st)"
proof (cases "visited st c")
  case None
  let ?st' = "relax m alg cur (a, c) st"
  have v: "visited ?st' = (visited st)(c \<mapsto> cost cur + 1)"
    using None by (simp add: relax_def Let_def)
  have "cells m - dom (visited ?st') = (cells m - dom (visited st)) - {c}"
    by (auto simp: v)
  moreover have "c \<in> cells m - dom (visited st)"
    using assms None by (auto simp: dom_def)
  ultimately have "unseen m ?st' < unseen m st"
    unfolding unseen_def using finite_cells [of m]
    by (metis card_Diff1_less finite_Diff)
  then show ?thesis by (simp add: progress_def)
next
  case (Some old)
  show ?thesis
  proof (cases "cost cur + 1 < old")
    case False
    then show ?thesis using Some by (simp add: relax_def Let_def)
  next
    case True
    let ?st' = "relax m alg cur (a, c) st"
    let ?S = "cells m \<inter> dom (visited st)"
    have v: "visited ?st' = (visited st)(c \<mapsto> cost cur + 1)"
      using Some True by (simp add: relax_def Let_def)
    have d: "dom (visited ?st') = dom (visited st)"
      using Some by (auto simp: v)
    have cS: "c \<in> ?S" using assms Some by auto
    have fS: "finite ?S" using finite_cells by blast
    have "total_cost m ?st' = (\<Sum>x \<in> ?S. the (visited ?st' x))"
      by (simp add: total_cost_def d)
    also have "\<dots> = the (visited ?st' c) + (\<Sum>x \<in> ?S - {c}. the (visited ?st' x))"
      using fS cS by (rule sum.remove)
    also have "(\<Sum>x \<in> ?S - {c}. the (visited ?st' x)) = (\<Sum>x \<in> ?S - {c}. the (visited st x))"
      by (rule sum.cong) (auto simp: v)
    also have "the (visited ?st' c) < the (visited st c)"
      using True Some by (simp add: v)
    finally have "total_cost m ?st' < the (visited st c) + (\<Sum>x \<in> ?S - {c}. the (visited st x))"
      by simp
    also have "\<dots> = total_cost m st"
      unfolding total_cost_def using fS cS by (rule sum.remove [symmetric])
    finally have "total_cost m ?st' < total_cost m st" .
    moreover have "unseen m ?st' = unseen m st"
      by (simp add: unseen_def d)
    ultimately show ?thesis by (simp add: progress_def)
  qed
qed

lemma fold_relax_progress:
  "\<forall>(a, c) \<in> set ns. c \<in> cells m \<Longrightarrow>
   fold (relax m alg cur) ns st = st \<or> progress m st (fold (relax m alg cur) ns st)"
proof (induction ns arbitrary: st)
  case Nil
  then show ?case by simp
next
  case (Cons n ns)
  obtain a c where n: "n = (a, c)" by (cases n)
  have c: "c \<in> cells m" using Cons.prems n by auto
  have rest: "\<forall>(a, c) \<in> set ns. c \<in> cells m" using Cons.prems by auto
  from relax_progress [OF c, of alg cur a st] Cons.IH [OF rest, of "relax m alg cur (a, c) st"]
  show ?case
    by (auto simp: n dest: progress_trans)
qed

lemma unseen_frontier [simp]: "unseen m (st\<lparr>frontier := fr\<rparr>) = unseen m st"
  by (simp add: unseen_def)

lemma total_cost_frontier [simp]: "total_cost m (st\<lparr>frontier := fr\<rparr>) = total_cost m st"
  by (simp add: total_cost_def)

lemma loop_body_decreases:
  assumes "loop_body m alg st = Next st'"
  shows "((m, alg, st'), (m, alg, st)) \<in>
           measures [\<lambda>(m, alg, st). unseen m st, \<lambda>(m, alg, st). total_cost m st,
                     \<lambda>(m, alg, st). length (frontier st)]"
proof -
  from assms obtain cur fr where
    pop: "heappop (frontier st) = Inr (cur, fr)" and
    st': "st' = fold (relax m alg cur) (neighbors m (state cur)) (st\<lparr>frontier := fr\<rparr>)"
    by (auto simp: loop_body_def split: if_splits sum.splits prod.splits)
  have "\<forall>(a, c) \<in> set (neighbors m (state cur)). c \<in> cells m"
    by (auto dest: neighbors_in_cells)
  from fold_relax_progress [OF this, of alg cur "st\<lparr>frontier := fr\<rparr>"]
  have "st' = st\<lparr>frontier := fr\<rparr> \<or> progress m (st\<lparr>frontier := fr\<rparr>) st'"
    by (simp add: st')
  then show ?thesis
  proof
    assume "st' = st\<lparr>frontier := fr\<rparr>"
    then show ?thesis using length_heappop [OF pop] by auto
  next
    assume "progress m (st\<lparr>frontier := fr\<rparr>) st'"
    then show ?thesis by (auto simp: progress_def)
  qed
qed

termination search_loop
  by (relation "measures [\<lambda>(m, alg, st). unseen m st, \<lambda>(m, alg, st). total_cost m st,
                     \<lambda>(m, alg, st). length (frontier st)]")
     (simp, erule loop_body_decreases)

termination search_states
  by (relation "measures [\<lambda>(m, alg, st). unseen m st, \<lambda>(m, alg, st). total_cost m st,
                     \<lambda>(m, alg, st). length (frontier st)]")
     (simp, erule loop_body_decreases)

section \<open>The frontier is a binary heap\<close>

text \<open>
  \<open>_siftdown\<close> closes a hole by moving parents down, \<open>_siftup\<close> moves the hole to a leaf by
  moving the smaller child up. Both keep the items (as a multiset), and they turn a heap
  with a hole into a heap. Hence \<open>heappush\<close> and \<open>heappop\<close> keep the heap, and \<open>heappop\<close>
  returns an item of least key \<open>g + h\<close>.
\<close>

lemma par_less: "0 < i \<Longrightarrow> par i < i"
  by arith

lemma Node_lt_f_key: "Node_lt a b \<longleftrightarrow> f_key a < f_key b"
  by (simp add: Node_lt_def f_key_def)

lemma place_is_heap:
  assumes hole: "heap_hole xs pos" and fits: "fits_below xs pos newitem"
    and pos: "pos < length xs"
    and up: "pos = 0 \<or> f_key (xs ! par pos) \<le> f_key newitem"
  shows "is_heap (xs[pos := newitem])"
  unfolding is_heap_def
proof (intro allI impI)
  fix i assume i: "0 < i \<and> i < length (xs[pos := newitem])"
  then have pi: "par i < i" by (auto intro: par_less)
  show "f_key (xs[pos := newitem] ! par i) \<le> f_key (xs[pos := newitem] ! i)"
  proof (cases "i = pos")
    case True
    then show ?thesis using i pi up pos by (auto simp: nth_list_update)
  next
    case ipos: False
    show ?thesis
    proof (cases "par i = pos")
      case True
      then show ?thesis using i ipos fits pos by (auto simp: fits_below_def nth_list_update)
    next
      case False
      then show ?thesis using i ipos hole by (auto simp: heap_hole_def nth_list_update)
    qed
  qed
qed

lemma move_parent_down:
  assumes hole: "heap_hole xs pos" and fits: "fits_below xs pos newitem"
    and pos: "pos < length xs" "0 < pos"
    and lt: "f_key newitem < f_key (xs ! par pos)"
  shows "heap_hole (xs[pos := xs ! par pos]) (par pos)"
    and "fits_below (xs[pos := xs ! par pos]) (par pos) newitem"
proof -
  let ?p = "par pos"
  let ?ys = "xs[pos := xs ! ?p]"
  have pp: "?p < pos" using pos by (auto intro: par_less)
  have edge: "f_key (xs ! par i) \<le> f_key (xs ! i)"
    if "0 < i" "i < length xs" "i \<noteq> pos" "par i \<noteq> pos" for i
    using hole that by (auto simp: heap_hole_def)
  have bridge: "f_key (xs ! ?p) \<le> f_key (xs ! c)"
    if "0 < c" "c < length xs" "par c = pos" for c
    using hole that pos by (auto simp: heap_hole_def)
  show "heap_hole ?ys ?p"
    unfolding heap_hole_def
  proof (intro conjI allI impI)
    fix i assume i: "0 < i \<and> i < length ?ys \<and> i \<noteq> ?p \<and> par i \<noteq> ?p"
    then have ipos: "i \<noteq> pos" by auto
    show "f_key (?ys ! par i) \<le> f_key (?ys ! i)"
    proof (cases "par i = pos")
      case True
      then show ?thesis using i ipos bridge [of i] pos by (simp add: nth_list_update)
    next
      case False
      then show ?thesis using i ipos edge [of i] by (simp add: nth_list_update)
    qed
  next
    fix c assume c: "0 < ?p \<and> 0 < c \<and> c < length ?ys \<and> par c = ?p"
    have ppp: "par ?p < ?p" using c par_less [of ?p] by blast
    have e1: "f_key (xs ! par ?p) \<le> f_key (xs ! ?p)"
      using edge [of ?p] c pp pos ppp by auto
    show "f_key (?ys ! par ?p) \<le> f_key (?ys ! c)"
    proof (cases "c = pos")
      case True
      then show ?thesis using e1 pos pp ppp by (simp add: nth_list_update)
    next
      case False
      then have "f_key (xs ! ?p) \<le> f_key (xs ! c)"
        using edge [of c] c pp by auto
      then show ?thesis using e1 False pp ppp by (simp add: nth_list_update)
    qed
  qed
  show "fits_below ?ys ?p newitem"
    unfolding fits_below_def
  proof (intro allI impI)
    fix c assume c: "0 < c \<and> c < length ?ys \<and> par c = ?p"
    show "f_key newitem \<le> f_key (?ys ! c)"
    proof (cases "c = pos")
      case True
      then show ?thesis using lt pos by (simp add: nth_list_update)
    next
      case False
      then have "f_key (xs ! ?p) \<le> f_key (xs ! c)"
        using edge [of c] c pp by auto
      then show ?thesis using lt False by (simp add: nth_list_update)
    qed
  qed
qed

lemma siftdown_loop_is_heap:
  "heap_hole xs pos \<Longrightarrow> fits_below xs pos newitem \<Longrightarrow> pos < length xs \<Longrightarrow> startpos = 0 \<Longrightarrow>
   is_heap (siftdown_loop xs startpos pos newitem)"
proof (induction xs startpos pos newitem rule: siftdown_loop.induct)
  case (1 heap startpos pos newitem)
  show ?case
  proof (cases "0 < pos \<and> Node_lt newitem (heap ! par pos)")
    case True
    then have lt: "f_key newitem < f_key (heap ! par pos)" by (simp add: Node_lt_f_key)
    have p0: "0 < pos" using True by simp
    have "is_heap (siftdown_loop (heap[pos := heap ! par pos]) startpos (par pos) newitem)"
      using "1.IH" [OF _ refl refl] True "1.prems" move_parent_down [OF "1.prems"(1,2,3) p0 lt]
        par_less [OF p0]
      by simp
    then show ?thesis
      using True "1.prems"(4)
      by (subst siftdown_loop.simps) (simp add: Let_def)
  next
    case False
    then have "pos = 0 \<or> f_key (heap ! par pos) \<le> f_key newitem"
      by (auto simp: Node_lt_f_key)
    from place_is_heap [OF "1.prems"(1,2,3) this] False "1.prems"(4)
    show ?thesis
      by (subst siftdown_loop.simps) (auto simp: Let_def)
  qed
qed

lemma mset_swap_hole:
  assumes "i < length xs" "j < length xs" "i \<noteq> j"
  shows "mset ((xs[i := xs ! j])[j := v]) = mset (xs[i := v])"
proof -
  have "mset ((xs[i := xs ! j])[j := v]) = add_mset v (mset (xs[i := xs ! j]) - {#xs ! j#})"
    using assms by (simp add: mset_update)
  also have "mset (xs[i := xs ! j]) = add_mset (xs ! j) (mset xs - {#xs ! i#})"
    using assms by (simp add: mset_update)
  finally show ?thesis using assms by (simp add: mset_update)
qed

lemma siftdown_loop_mset:
  "pos < length xs \<Longrightarrow> mset (siftdown_loop xs startpos pos newitem) = mset (xs[pos := newitem])"
proof (induction xs startpos pos newitem rule: siftdown_loop.induct)
  case (1 heap startpos pos newitem)
  show ?case
  proof (cases "startpos < pos \<and> Node_lt newitem (heap ! ((pos - 1) div 2))")
    case True
    then have "0 < pos" by simp
    then have pp: "(pos - 1) div 2 < pos" by arith
    have "mset (siftdown_loop (heap[pos := heap ! ((pos - 1) div 2)]) startpos ((pos - 1) div 2) newitem)
          = mset ((heap[pos := heap ! ((pos - 1) div 2)])[(pos - 1) div 2 := newitem])"
      using "1.IH" [OF _ refl refl] True pp "1.prems" by simp
    also have "\<dots> = mset (heap[pos := newitem])"
      using mset_swap_hole [of pos heap "(pos - 1) div 2" newitem] pp "1.prems" by simp
    finally show ?thesis
      using True by (subst siftdown_loop.simps) (simp add: Let_def)
  next
    case False
    then show ?thesis
      by (subst siftdown_loop.simps) (auto simp: Let_def)
  qed
qed


lemma move_child_up:
  assumes hole: "heap_hole xs pos" and pos: "pos < length xs"
    and c: "c < length xs" "c = 2 * pos + 1 \<or> c = 2 * pos + 2"
    and least: "\<And>d. d < length xs \<Longrightarrow> d = 2 * pos + 1 \<or> d = 2 * pos + 2 \<Longrightarrow>
                  f_key (xs ! c) \<le> f_key (xs ! d)"
  shows "heap_hole (xs[pos := xs ! c]) c"
proof -
  let ?ys = "xs[pos := xs ! c]"
  have pc: "par c = pos" "pos < c" "0 < c" using c by auto
  have edge: "f_key (xs ! par i) \<le> f_key (xs ! i)"
    if "0 < i" "i < length xs" "i \<noteq> pos" "par i \<noteq> pos" for i
    using hole that by (auto simp: heap_hole_def)
  have bridge: "f_key (xs ! par pos) \<le> f_key (xs ! d)"
    if "0 < pos" "0 < d" "d < length xs" "par d = pos" for d
    using hole that by (auto simp: heap_hole_def)
  show ?thesis
    unfolding heap_hole_def
  proof (intro conjI allI impI)
    fix i assume i: "0 < i \<and> i < length ?ys \<and> i \<noteq> c \<and> par i \<noteq> c"
    show "f_key (?ys ! par i) \<le> f_key (?ys ! i)"
    proof (cases "i = pos")
      case True
      then have "par pos < pos" using i par_less [of pos] by blast
      then show ?thesis
        using True i bridge [of c] pc c(1) pos by (simp add: nth_list_update)
    next
      case ipos: False
      show ?thesis
      proof (cases "par i = pos")
        case True
        then have "i = 2 * pos + 1 \<or> i = 2 * pos + 2" using i by arith
        then have "f_key (xs ! c) \<le> f_key (xs ! i)" using least [of i] i by simp
        then show ?thesis using True ipos pos by (simp add: nth_list_update)
      next
        case False
        then show ?thesis using i ipos edge [of i] by (simp add: nth_list_update)
      qed
    qed
  next
    fix d assume d: "0 < c \<and> 0 < d \<and> d < length ?ys \<and> par d = c"
    then have "d \<noteq> pos" "c < d" using pc par_less [of d] by auto
    then have "f_key (xs ! c) \<le> f_key (xs ! d)"
      using edge [of d] d pc by auto
    then show "f_key (?ys ! par c) \<le> f_key (?ys ! d)"
      using pc \<open>d \<noteq> pos\<close> pos by (simp add: nth_list_update)
  qed
qed

lemma siftup_loop_hole:
  "heap_hole xs pos \<Longrightarrow> pos < length xs \<Longrightarrow> childpos = 2 * pos + 1 \<Longrightarrow> endpos = length xs \<Longrightarrow>
   siftup_loop xs pos childpos endpos = (ys, q) \<Longrightarrow>
   heap_hole ys q \<and> q < length ys \<and> length ys = length xs \<and> length ys \<le> 2 * q + 1 \<and>
   (\<forall>v. mset (ys[q := v]) = mset (xs[pos := v]))"
proof (induction xs pos childpos endpos arbitrary: ys q rule: siftup_loop.induct)
  case (1 heap pos childpos endpos)
  show ?case
  proof (cases "childpos < endpos")
    case False
    then have "ys = heap" "q = pos"
      using "1.prems"(5) by (subst (asm) siftup_loop.simps, simp)+
    then show ?thesis using "1.prems" False by simp
  next
    case True
    define c where "c = (if childpos + 1 < endpos \<and>
                            \<not> Node_lt (heap ! childpos) (heap ! (childpos + 1))
                         then childpos + 1 else childpos)"
    have run: "siftup_loop (heap[pos := heap ! c]) c (2 * c + 1) endpos = (ys, q)"
      using "1.prems"(5) True
      by (subst (asm) siftup_loop.simps) (auto simp: Let_def c_def split: if_splits)
    have c: "c < length heap" "c = 2 * pos + 1 \<or> c = 2 * pos + 2"
      using True "1.prems"(3,4) by (auto simp: c_def)
    have least: "f_key (heap ! c) \<le> f_key (heap ! d)"
      if "d < length heap" "d = 2 * pos + 1 \<or> d = 2 * pos + 2" for d
      using that True "1.prems"(3,4) by (auto simp: c_def Node_lt_f_key)
    have hole': "heap_hole (heap[pos := heap ! c]) c"
      using move_child_up [OF "1.prems"(1,2) c least] by simp
    have "heap_hole ys q \<and> q < length ys \<and> length ys = length (heap[pos := heap ! c]) \<and>
          length ys \<le> 2 * q + 1 \<and>
          (\<forall>v. mset (ys[q := v]) = mset ((heap[pos := heap ! c])[c := v]))"
    proof (rule "1.IH" [OF True refl])
      show "c = (if childpos + 1 < endpos \<and> \<not> Node_lt (heap ! childpos) (heap ! (childpos + 1))
                 then childpos + 1 else childpos)"
        by (simp add: c_def)
      show "heap_hole (heap[pos := heap ! c]) c" by (rule hole')
      show "c < length (heap[pos := heap ! c])" using c by simp
      show "2 * c + 1 = 2 * c + 1" by simp
      show "endpos = length (heap[pos := heap ! c])" using "1.prems"(4) by simp
      show "siftup_loop (heap[pos := heap ! c]) c (2 * c + 1) endpos = (ys, q)" by (rule run)
    qed
    moreover have "mset ((heap[pos := heap ! c])[c := v]) = mset (heap[pos := v])" for v
      using mset_swap_hole [of pos heap c v] c "1.prems"(2) by auto
    ultimately show ?thesis by simp
  qed
qed

lemma root_least:
  assumes "is_heap xs"
  shows "i < length xs \<Longrightarrow> f_key (xs ! 0) \<le> f_key (xs ! i)"
proof (induction i rule: less_induct)
  case (less i)
  show ?case
  proof (cases "i = 0")
    case True
    then show ?thesis by simp
  next
    case False
    then have p: "par i < i" using par_less [of i] by simp
    have "f_key (xs ! 0) \<le> f_key (xs ! par i)"
      using less.IH [OF p] p less.prems by simp
    also have "\<dots> \<le> f_key (xs ! i)"
      using assms False less.prems by (simp add: is_heap_def)
    finally show ?thesis .
  qed
qed

lemma is_heap_butlast: "is_heap xs \<Longrightarrow> is_heap (butlast xs)"
  by (auto simp: is_heap_def nth_butlast dest: par_less)

lemma heap_hole_root: "is_heap xs \<Longrightarrow> heap_hole (xs[0 := v]) 0"
  by (auto simp: is_heap_def heap_hole_def nth_list_update)

lemma heap_hole_update: "heap_hole xs pos \<Longrightarrow> heap_hole (xs[pos := v]) pos"
  by (auto simp: heap_hole_def nth_list_update dest: par_less)

lemma heap_hole_append: "is_heap xs \<Longrightarrow> heap_hole (xs @ [v]) (length xs)"
  unfolding heap_hole_def
proof (intro conjI allI impI)
  fix i
  assume h: "is_heap xs"
    and i: "0 < i \<and> i < length (xs @ [v]) \<and> i \<noteq> length xs \<and> par i \<noteq> length xs"
  then have "i < length xs" "par i < length xs" using par_less [of i] by auto
  then show "f_key ((xs @ [v]) ! par i) \<le> f_key ((xs @ [v]) ! i)"
    using h i by (simp add: is_heap_def nth_append)
next
  fix c
  assume "0 < length xs \<and> 0 < c \<and> c < length (xs @ [v]) \<and> par c = length xs"
  then have False using par_less [of c] by simp
  then show "f_key ((xs @ [v]) ! par (length xs)) \<le> f_key ((xs @ [v]) ! c)" ..
qed

lemma fits_below_leaf: "length xs \<le> 2 * pos + 1 \<Longrightarrow> fits_below xs pos v"
  unfolding fits_below_def by (intro allI impI) arith

lemma heappush_is_heap: "is_heap xs \<Longrightarrow> is_heap (heappush xs item)"
  unfolding heappush_def siftdown_def
  by (rule siftdown_loop_is_heap) (auto intro: heap_hole_append fits_below_leaf)

lemma heappush_mset: "mset (heappush xs item) = add_mset item (mset xs)"
  by (simp add: heappush_def siftdown_def siftdown_loop_mset)

lemma siftup_root:
  assumes "is_heap xs" "xs \<noteq> []"
  shows "is_heap (siftup (xs[0 := v]) 0)" and "mset (siftup (xs[0 := v]) 0) = mset (xs[0 := v])"
proof -
  obtain ys q where run: "siftup_loop (xs[0 := v]) 0 (2 * 0 + 1) (length (xs[0 := v])) = (ys, q)"
    by (cases "siftup_loop (xs[0 := v]) 0 (2 * 0 + 1) (length (xs[0 := v]))")
  have len: "0 < length (xs[0 := v])" using assms(2) by simp
  from siftup_loop_hole [OF heap_hole_root [OF assms(1)] len refl refl run]
  have ys: "heap_hole ys q" "q < length ys" "length ys \<le> 2 * q + 1"
    "\<And>w. mset (ys[q := w]) = mset ((xs[0 := v])[0 := w])"
    by auto
  have res: "siftup (xs[0 := v]) 0 = siftdown_loop (ys[q := v]) 0 q v"
    using run ys(2) assms(2) by (simp add: siftup_def siftdown_def Let_def)
  show "is_heap (siftup (xs[0 := v]) 0)"
    unfolding res
    by (rule siftdown_loop_is_heap)
       (use ys in \<open>auto intro: heap_hole_update fits_below_leaf\<close>)
  show "mset (siftup (xs[0 := v]) 0) = mset (xs[0 := v])"
    unfolding res using ys(2) ys(4) [of v] by (simp add: siftdown_loop_mset)
qed

lemma heappop_Inl: "heappop xs = Inl e \<longleftrightarrow> xs = [] \<and> e = IndexError"
  by (auto simp: heappop_def Let_def)

lemma heappop_Inr:
  assumes "heappop xs = Inr (x, fr)" and "is_heap xs"
  shows "is_heap fr" and "mset xs = add_mset x (mset fr)" and "\<forall>n \<in> set xs. f_key x \<le> f_key n"
    and "x = xs ! 0"
proof -
  from assms(1) have ne: "xs \<noteq> []" by (auto simp: heappop_def)
  then obtain ys l where xs: "xs = ys @ [l]" by (cases xs rule: rev_cases) auto
  have hy: "is_heap ys" using is_heap_butlast [OF assms(2)] by (simp add: xs)
  have x0: "x = xs ! 0" and fr: "fr = (if ys = [] then [] else siftup (ys[0 := l]) 0)"
    using assms(1) by (auto simp: heappop_def xs Let_def nth_append split: if_splits)
  show "x = xs ! 0" by (rule x0)
  show "is_heap fr"
    using siftup_root(1) [OF hy] by (auto simp: fr is_heap_def)
  show "mset xs = add_mset x (mset fr)"
  proof (cases "ys = []")
    case True
    then show ?thesis using x0 by (simp add: fr xs)
  next
    case False
    then have "mset fr = mset (ys[0 := l])" using siftup_root(2) [OF hy False] by (simp add: fr)
    also have "\<dots> = add_mset l (mset ys - {#ys ! 0#})" using False by (simp add: mset_update)
    finally show ?thesis using False x0 by (simp add: xs nth_append)
  qed
  show "\<forall>n \<in> set xs. f_key x \<le> f_key n"
    using root_least [OF assms(2)] x0 by (auto simp: in_set_conv_nth)
qed

section \<open>The strategy selector\<close>

text \<open>The search never looks at the selector again once it is accepted: the local
  \<open>priority\<close> is the only place that reads it, and nothing reads \<open>priority\<close>. The only error
  the loop ends with is \<open>NoPathError\<close>.\<close>

declare search_loop.simps [simp del] search_states.simps [simp del]

lemma lower_a_star: "lower ''a*'' = ''a*''"
  by code_simp

lemma lower_greedy: "lower ''greedy'' = ''greedy''"
  by code_simp

lemma relax_algorithm: "relax m a cur an st = relax m b cur an st"
  by (simp add: relax_def Let_def split: prod.splits)

lemma loop_body_algorithm: "loop_body m a st = loop_body m b st"
proof -
  have eq: "relax m a = relax m b"
    by (intro ext) (rule relax_algorithm)
  show ?thesis unfolding loop_body_def eq ..
qed

lemma search_loop_algorithm: "search_loop m a st = search_loop m b st"
proof (induction m a st rule: search_loop.induct)
  case (1 m a st)
  show ?case
  proof (cases "loop_body m a st")
    case (Done r)
    then show ?thesis
      using loop_body_algorithm [of m a st b]
      by (simp add: search_loop.simps [of m a st] search_loop.simps [of m b st])
  next
    case (Next st')
    then show ?thesis
      using loop_body_algorithm [of m a st b] "1.IH" [OF Next]
      by (simp add: search_loop.simps [of m a st] search_loop.simps [of m b st])
  qed
qed

lemma search_loop_error: "search_loop m alg st = Inl e \<Longrightarrow> e = NoPathError"
proof (induction m alg st rule: search_loop.induct)
  case (1 m alg st)
  show ?case
  proof (cases "loop_body m alg st")
    case (Done r)
    then have "r = Inl e" using "1.prems" by (simp add: search_loop.simps [of m alg st])
    then show ?thesis
      using Done
      by (auto simp: loop_body_def heappop_Inl split: if_splits sum.splits prod.splits)
  next
    case (Next st')
    then show ?thesis
      using "1.IH" [OF Next] "1.prems" by (simp add: search_loop.simps [of m alg st])
  qed
qed

section \<open>The invariant of the search loop\<close>

text \<open>Popping a node starts its expansion, each neighbour handled keeps the expansion
  going, and when all neighbours are handled the invariant holds again.\<close>

lemma closed_cell_mono:
  assumes "closed_cell m st v c"
    and "\<And>w c'. visited st w = Some c' \<Longrightarrow> \<exists>c''. visited st' w = Some c'' \<and> c'' \<le> c'"
  shows "closed_cell m st' v c"
  using assms unfolding closed_cell_def
  by (meson le_trans)

lemma in_frontier_mono:
  "in_frontier st v c \<Longrightarrow> set (frontier st) \<subseteq> set (frontier st') \<Longrightarrow> in_frontier st' v c"
  by (auto simp: in_frontier_def)

lemma set_heappush: "set (heappush xs item) = insert item (set xs)"
  using heappush_mset [of xs item] by (metis set_mset_add_mset_insert set_mset_mset)

lemma set_heappop:
  assumes "heappop xs = Inr (x, fr)" "is_heap xs"
  shows "set xs = insert x (set fr)"
  using heappop_Inr(2) [OF assms] by (metis set_mset_add_mset_insert set_mset_mset)

lemma pop_expanding:
  assumes inv: "search_inv m st" and pop: "heappop (frontier st) = Inr (cur, fr)"
  shows "expanding m cur {} (st\<lparr>frontier := fr\<rparr>)"
proof -
  have heap: "is_heap (frontier st)" using inv by (simp add: search_inv_def nodes_ok_def)
  have sets: "set (frontier st) = insert cur (set fr)" by (rule set_heappop [OF pop heap])
  have "nodes_ok m (st\<lparr>frontier := fr\<rparr>)"
    using inv heappop_Inr(1) [OF pop heap] sets by (auto simp: search_inv_def nodes_ok_def)
  moreover have "node_ok m cur \<and> set (node_path cur) \<subseteq> dom (visited st)"
    using inv sets by (auto simp: search_inv_def nodes_ok_def)
  moreover have "in_frontier (st\<lparr>frontier := fr\<rparr>) v c \<or> closed_cell m (st\<lparr>frontier := fr\<rparr>) v c \<or>
                 (v = state cur \<and> c = cost cur)"
    if "visited st v = Some c" for v c
  proof -
    from inv that have "in_frontier st v c \<or> closed_cell m st v c"
      unfolding search_inv_def by blast
    then show ?thesis
    proof
      assume "in_frontier st v c"
      then show ?thesis using sets by (auto simp: in_frontier_def)
    next
      assume "closed_cell m st v c"
      then have "closed_cell m (st\<lparr>frontier := fr\<rparr>) v c" by (simp add: closed_cell_def)
      then show ?thesis by simp
    qed
  qed
  ultimately show ?thesis by (simp add: expanding_def)
qed

lemma relax_eq:
  "relax m alg cur (a, w) st =
     (if (case visited st w of None \<Rightarrow> True | Some c \<Rightarrow> cost cur + 1 < c)
      then st\<lparr>visited := (visited st)(w \<mapsto> cost cur + 1),
              all_visited := insert w (all_visited st),
              frontier := heappush (frontier st)
                            (Node w (Some cur) (Some a) (cost cur + 1) (heuristic m w))\<rparr>
      else st)"
  unfolding relax_def Let_def prod.case ..

lemma relax_expanding:
  assumes ex: "expanding m cur D st" and nb: "(a, w) \<in> set (neighbors m (state cur))"
  shows "expanding m cur (insert w D) (relax m alg cur (a, w) st)"
proof (cases "case visited st w of None \<Rightarrow> True | Some c \<Rightarrow> cost cur + 1 < c")
  case False
  then obtain c' where "visited st w = Some c'" "c' \<le> cost cur + 1"
    by (auto split: option.splits)
  moreover have "relax m alg cur (a, w) st = st"
    using False by (simp add: relax_eq)
  ultimately show ?thesis using ex by (auto simp: expanding_def)
next
  case True
  define node where "node = Node w (Some cur) (Some a) (cost cur + 1) (heuristic m w)"
  define st' where "st' = relax m alg cur (a, w) st"
  have st': "visited st' = (visited st)(w \<mapsto> cost cur + 1)"
    "all_visited st' = insert w (all_visited st)"
    "frontier st' = heappush (frontier st) node"
    using True by (simp_all add: st'_def relax_eq node_def)
  have fr: "set (frontier st') = insert node (set (frontier st))"
    by (simp add: st' set_heappush)
  have dom: "dom (visited st') = insert w (dom (visited st))"
    by (simp add: st')
  have nok: "nodes_ok m st" and cur: "node_ok m cur" "set (node_path cur) \<subseteq> dom (visited st)"
    using ex by (simp_all add: expanding_def)
  have node: "node_ok m node" "node_path node = node_path cur @ [w]" "state node = w"
    "cost node = cost cur + 1"
    using cur nb by (auto simp: node_def)
  have start: "visited st' (start m) = Some 0"
    using nok True by (auto simp: nodes_ok_def st' split: option.splits)
  have lower: "\<exists>c''. visited st' x = Some c'' \<and> c'' \<le> c'" if "visited st x = Some c'" for x c'
    using that True by (auto simp: st')
  have exD: "\<forall>x \<in> D. \<exists>c'. visited st x = Some c' \<and> c' \<le> cost cur + 1"
    using ex by (simp add: expanding_def)
  have cover: "in_frontier st v c \<or> closed_cell m st v c \<or> (v = state cur \<and> c = cost cur)"
    if "visited st v = Some c" for v c
    using ex that unfolding expanding_def by (elim conjE allE [of _ v] allE [of _ c]) simp
  have n1: "nodes_ok m st'"
    unfolding nodes_ok_def
  proof (intro conjI ballI)
    fix n assume "n \<in> set (frontier st')"
    then show "node_ok m n" "set (node_path n) \<subseteq> dom (visited st')"
      using nok node cur by (auto simp: fr dom nodes_ok_def)
  next
    show "all_visited st' = dom (visited st')" using nok by (simp add: st' nodes_ok_def)
    show "visited st' (start m) = Some 0" by (rule start)
    show "is_heap (frontier st')" using nok by (simp add: st' nodes_ok_def heappush_is_heap)
  qed
  have n2: "set (node_path cur) \<subseteq> dom (visited st')" using cur dom by auto
  have n3: "in_frontier st' v c \<or> closed_cell m st' v c \<or> (v = state cur \<and> c = cost cur)"
    if v: "visited st' v = Some c" for v c
  proof (cases "v = w")
    case True
    then have "c = cost cur + 1" using v by (simp add: st')
    then show ?thesis using True node by (auto simp: in_frontier_def fr)
  next
    case False
    then have "visited st v = Some c" using v by (simp add: st')
    from cover [OF this] show ?thesis
    proof (elim disjE)
      assume "in_frontier st v c"
      then show ?thesis using in_frontier_mono [of st v c st'] fr by auto
    next
      assume "closed_cell m st v c"
      then have "closed_cell m st' v c" by (rule closed_cell_mono) (rule lower)
      then show ?thesis by simp
    next
      assume "v = state cur \<and> c = cost cur"
      then show ?thesis by simp
    qed
  qed
  have n4: "\<exists>c'. visited st' x = Some c' \<and> c' \<le> cost cur + 1" if "x \<in> insert w D" for x
  proof (cases "x = w")
    case True
    then show ?thesis by (simp add: st')
  next
    case False
    then have "x \<in> D" using that by simp
    with exD obtain c' where "visited st x = Some c'" "c' \<le> cost cur + 1"
      by blast
    then show ?thesis using lower [of x c'] by auto
  qed
  show ?thesis
    unfolding expanding_def st'_def [symmetric]
  proof (intro conjI allI impI ballI)
    show "nodes_ok m st'" by (rule n1)
    show "node_ok m cur" by (rule cur(1))
    show "set (node_path cur) \<subseteq> dom (visited st')" by (rule n2)
    show "in_frontier st' v c \<or> closed_cell m st' v c \<or> v = state cur \<and> c = cost cur"
      if "visited st' v = Some c" for v c by (rule n3 [OF that])
    show "\<exists>c'. visited st' x = Some c' \<and> c' \<le> cost cur + 1" if "x \<in> insert w D" for x
      by (rule n4 [OF that])
  qed
qed

lemma fold_relax_expanding:
  "expanding m cur D st \<Longrightarrow> set ns \<subseteq> set (neighbors m (state cur)) \<Longrightarrow>
   expanding m cur (D \<union> snd ` set ns) (fold (relax m alg cur) ns st)"
proof (induction ns arbitrary: D st)
  case Nil
  then show ?case by simp
next
  case (Cons n ns)
  obtain a w where n: "n = (a, w)" by (cases n)
  have "expanding m cur (insert w D) (relax m alg cur (a, w) st)"
    using relax_expanding [OF Cons.prems(1)] Cons.prems(2) n by simp
  from Cons.IH [OF this] Cons.prems(2)
  show ?case by (simp add: n)
qed

lemma expanded_inv:
  assumes "expanding m cur (snd ` set (neighbors m (state cur))) st" and "state cur \<noteq> goal m"
  shows "search_inv m st"
proof -
  have "closed_cell m st (state cur) (cost cur)"
    using assms by (auto simp: expanding_def closed_cell_def adjacent_def)
  then show ?thesis
    using assms(1) unfolding expanding_def search_inv_def by blast
qed

lemma loop_body_inv:
  assumes inv: "search_inv m st" and step: "loop_body m alg st = Next st'"
  shows "search_inv m st'"
proof -
  from step obtain cur fr where
    pop: "heappop (frontier st) = Inr (cur, fr)" and ng: "state cur \<noteq> goal m" and
    st': "st' = fold (relax m alg cur) (neighbors m (state cur)) (st\<lparr>frontier := fr\<rparr>)"
    by (auto simp: loop_body_def split: if_splits sum.splits prod.splits)
  from fold_relax_expanding [OF pop_expanding [OF inv pop] subset_refl, of alg]
  show ?thesis
    using expanded_inv [OF _ ng] by (simp add: st')
qed

lemma initial_inv: "search_inv m (initial_state m)"
proof -
  define n0 where "n0 = Node (start m) None None 0 (heuristic m (start m))"
  have fr: "frontier (initial_state m) = heappush [] n0"
    and v: "visited (initial_state m) = [start m \<mapsto> 0]"
    and av: "all_visited (initial_state m) = {start m}"
    by (simp_all add: initial_state_def n0_def)
  have s: "set (frontier (initial_state m)) = {n0}" by (simp add: fr set_heappush)
  have h: "is_heap (frontier (initial_state m))"
    unfolding fr by (rule heappush_is_heap) (simp add: is_heap_def)
  have "nodes_ok m (initial_state m)"
    by (auto simp: nodes_ok_def s v av h n0_def)
  moreover have "in_frontier (initial_state m) (start m) 0"
    by (auto simp: in_frontier_def s n0_def)
  ultimately show ?thesis by (auto simp: search_inv_def v split: if_splits)
qed

section \<open>What the search returns\<close>

text \<open>
  The path rebuilt from a well-formed node is its chain of cells. The Manhattan distance
  drops by at most one per move, so it never exceeds the number of moves left to the goal.
  Along any route, the first cell whose recorded cost is still in the frontier gives a
  frontier node whose key \<open>g + h\<close> is at most the length of the route. The popped node has
  the least key, so a popped goal node is at least as short as every route, and the
  frontier cannot run empty while a route exists.
\<close>

lemma node_path_nonempty: "node_path n \<noteq> []"
  by (induction n rule: node_path.induct) auto

lemma state_in_node_path: "state n \<in> set (node_path n)"
  by (induction n rule: node_path.induct) auto

lemma node_ok_path:
  "node_ok m n \<Longrightarrow>
     hd (node_path n) = start m \<and> last (node_path n) = state n \<and>
     length (node_path n) = cost n + 1 \<and> successively (adjacent m) (node_path n) \<and>
     node_heuristic n = heuristic m (state n)"
proof (induction m n rule: node_ok.induct)
  case (1 m s a c h)
  then show ?case by simp
next
  case (2 m s p a c h)
  then have p: "hd (node_path p) = start m" "last (node_path p) = state p"
    "length (node_path p) = cost p + 1" "successively (adjacent m) (node_path p)"
    by auto
  have "adjacent m (state p) s"
    using "2.prems" by (force simp: adjacent_def)
  then show ?case
    using p "2.prems" node_path_nonempty [of p]
    by (auto simp: successively_append_iff)
qed

lemma walk_parents_path:
  "fst (walk_parents n path actions) = path @ rev (tl (node_path n))"
  by (induction n path actions rule: walk_parents.induct) (auto simp: node_path_nonempty)

lemma reconstruct_path:
  assumes "node_ok m n"
  shows "fst (reconstruct m n) = node_path n"
proof -
  have "fst (reconstruct m n) = start m # tl (node_path n)"
    using walk_parents_path [of n "[]" "[]"]
    by (cases "walk_parents n [] []") (simp add: reconstruct_def)
  then show ?thesis
    using node_ok_path [OF assms] node_path_nonempty [of n]
    by (metis list.collapse)
qed

lemma heuristic_goal: "heuristic m (goal m) = 0"
  by (simp add: heuristic_def)

lemma neighbors_filter:
  "neighbors m (i, j) =
     filter (\<lambda>(a, c). open_cell m c)
       [(''right'', (i, j + 1)), (''down'', (i + 1, j)), (''left'', (i, j - 1)), (''up'', (i - 1, j))]"
  unfolding neighbors_def Let_def prod.case
  by (rule filter_cong) (auto simp: open_cell_def)

lemma adjacent_iff:
  "adjacent m (i, j) b \<longleftrightarrow>
     open_cell m b \<and> (b = (i, j + 1) \<or> b = (i + 1, j) \<or> b = (i, j - 1) \<or> b = (i - 1, j))"
  unfolding adjacent_def neighbors_filter
  by (auto simp: image_iff)

lemma adjacent_open: "adjacent m a b \<Longrightarrow> open_cell m b"
  by (cases a) (simp add: adjacent_iff)

lemma heuristic_step: "adjacent m a b \<Longrightarrow> heuristic m a \<le> heuristic m b + 1"
proof -
  assume adj: "adjacent m a b"
  obtain i j where a: "a = (i, j)" by (cases a)
  from adj have "b = (i, j + 1) \<or> b = (i + 1, j) \<or> b = (i, j - 1) \<or> b = (i - 1, j)"
    by (simp add: a adjacent_iff)
  then show ?thesis
    by (elim disjE) (auto simp: a heuristic_def)
qed

lemma heuristic_admissible:
  "p \<noteq> [] \<Longrightarrow> successively (adjacent m) p \<Longrightarrow> last p = goal m \<Longrightarrow>
   heuristic m (hd p) \<le> length p - 1"
proof (induction p)
  case Nil
  then show ?case by simp
next
  case (Cons v r)
  show ?case
  proof (cases r)
    case Nil
    then show ?thesis using Cons.prems by (simp add: heuristic_goal)
  next
    case (Cons w r')
    then have "heuristic m w \<le> length r - 1" "adjacent m v w"
      using Cons.IH Cons.prems by auto
    then show ?thesis
      using heuristic_step [of m v w] Cons by simp
  qed
qed

lemma chain_bound:
  assumes inv: "search_inv m st"
  shows "p \<noteq> [] \<Longrightarrow> successively (adjacent m) p \<Longrightarrow> last p = goal m \<Longrightarrow>
         visited st (hd p) = Some c \<Longrightarrow>
         \<exists>n \<in> set (frontier st). f_key n \<le> c + (length p - 1)"
proof (induction p arbitrary: c)
  case Nil
  then show ?case by simp
next
  case (Cons v r)
  have vc: "visited st v = Some c" using Cons.prems by simp
  have cover: "in_frontier st v c \<or> closed_cell m st v c"
    using inv vc unfolding search_inv_def by blast
  have ok: "node_ok m n" if "n \<in> set (frontier st)" for n
    using inv that by (simp add: search_inv_def nodes_ok_def)
  from cover show ?case
  proof
    assume "in_frontier st v c"
    then obtain n where n: "n \<in> set (frontier st)" "state n = v" "cost n = c"
      by (auto simp: in_frontier_def)
    have "node_heuristic n = heuristic m v"
      using node_ok_path [OF ok [OF n(1)]] n(2) by simp
    also have "\<dots> \<le> length (v # r) - 1"
      using heuristic_admissible [of "v # r" m] Cons.prems by simp
    finally have "f_key n \<le> c + (length (v # r) - 1)"
      using n(3) by (simp add: f_key_def)
    then show ?thesis using n(1) by blast
  next
    assume closed: "closed_cell m st v c"
    then have "v \<noteq> goal m" by (simp add: closed_cell_def)
    then obtain w r' where r: "r = w # r'" using Cons.prems by (cases r) auto
    then have "adjacent m v w" using Cons.prems by simp
    then obtain c' where c': "visited st w = Some c'" "c' \<le> c + 1"
      using closed unfolding closed_cell_def by blast
    have "\<exists>n \<in> set (frontier st). f_key n \<le> c' + (length r - 1)"
      using Cons.IH [of c'] Cons.prems c'(1) r by simp
    then obtain n where n: "n \<in> set (frontier st)" "f_key n \<le> c' + (length r - 1)"
      by blast
    have "f_key n \<le> c + (length (v # r) - 1)"
      using n(2) c'(2) r by simp
    then show ?thesis using n(1) by blast
  qed
qed

lemma frontier_bound:
  assumes "search_inv m st" "route m q"
  shows "\<exists>n \<in> set (frontier st). f_key n \<le> steps q"
proof -
  have "visited st (hd q) = Some 0"
    using assms by (simp add: search_inv_def nodes_ok_def route_def)
  from chain_bound [OF assms(1) _ _ _ this] assms(2)
  show ?thesis by (simp add: route_def steps_def)
qed

lemma loop_body_empty:
  "frontier st = [] \<Longrightarrow> loop_body m alg st = Done (Inl NoPathError)"
  by (simp add: loop_body_def)

lemma loop_body_goal:
  "heappop (frontier st) = Inr (cur, fr) \<Longrightarrow> state cur = goal m \<Longrightarrow>
   loop_body m alg st = Done (Inr (reconstruct m cur, all_visited st))"
  by (auto simp: loop_body_def heappop_def)

lemma loop_body_expand:
  "heappop (frontier st) = Inr (cur, fr) \<Longrightarrow> state cur \<noteq> goal m \<Longrightarrow>
   loop_body m alg st =
     Next (fold (relax m alg cur) (neighbors m (state cur)) (st\<lparr>frontier := fr\<rparr>))"
  by (auto simp: loop_body_def heappop_def)

lemma search_loop_Done: "loop_body m alg st = Done r \<Longrightarrow> search_loop m alg st = r"
  by (simp add: search_loop.simps [of m alg st])

lemma search_loop_Next:
  "loop_body m alg st = Next st' \<Longrightarrow> search_loop m alg st = search_loop m alg st'"
  by (simp add: search_loop.simps [of m alg st])

lemma goal_popped:
  assumes inv: "search_inv m st" and pop: "heappop (frontier st) = Inr (cur, fr)"
    and goal: "state cur = goal m"
  shows "\<exists>path acts vis. search_loop m alg st = Inr ((path, acts), vis) \<and>
           route m path \<and> set path \<subseteq> vis \<and> (\<forall>q. route m q \<longrightarrow> steps path \<le> steps q)"
proof -
  have nok: "nodes_ok m st" using inv by (simp add: search_inv_def)
  have heap: "is_heap (frontier st)" using nok by (simp add: nodes_ok_def)
  have cur_in: "cur \<in> set (frontier st)" using set_heappop [OF pop heap] by simp
  have ok: "node_ok m cur" and sub: "set (node_path cur) \<subseteq> dom (visited st)"
    and av: "all_visited st = dom (visited st)"
    using nok cur_in by (auto simp: nodes_ok_def)
  have res: "search_loop m alg st =
               Inr ((node_path cur, snd (reconstruct m cur)), all_visited st)"
    using search_loop_Done [OF loop_body_goal [OF pop goal, of alg]] reconstruct_path [OF ok]
    by (simp add: prod_eq_iff)
  have r: "route m (node_path cur)"
    using node_ok_path [OF ok] goal node_path_nonempty [of cur] by (simp add: route_def)
  have least: "steps (node_path cur) \<le> steps q" if "route m q" for q
  proof -
    from frontier_bound [OF inv that] obtain n where
      n: "n \<in> set (frontier st)" "f_key n \<le> steps q" by blast
    have "f_key cur \<le> f_key n" using heappop_Inr(3) [OF pop heap] n(1) by blast
    moreover have "steps (node_path cur) = cost cur"
      using node_ok_path [OF ok] by (simp add: steps_def)
    ultimately show ?thesis using n(2) by (simp add: f_key_def)
  qed
  show ?thesis
  proof (intro exI conjI allI impI)
    show "search_loop m alg st = Inr ((node_path cur, snd (reconstruct m cur)), all_visited st)"
      by (rule res)
    show "route m (node_path cur)" by (rule r)
    show "set (node_path cur) \<subseteq> all_visited st" using sub av by simp
    show "steps (node_path cur) \<le> steps q" if "route m q" for q by (rule least [OF that])
  qed
qed

lemma search_loop_result:
  "search_inv m st \<Longrightarrow>
     (search_loop m alg st = Inl NoPathError \<and> (\<forall>q. \<not> route m q)) \<or>
     (\<exists>path acts vis. search_loop m alg st = Inr ((path, acts), vis) \<and>
        route m path \<and> set path \<subseteq> vis \<and> (\<forall>q. route m q \<longrightarrow> steps path \<le> steps q))"
proof (induction m alg st rule: search_loop.induct)
  case (1 m alg st)
  note inv = "1.prems"
  show ?case
  proof (cases "frontier st = []")
    case True
    have "search_loop m alg st = Inl NoPathError"
      by (rule search_loop_Done [OF loop_body_empty [OF True]])
    moreover have "\<not> route m q" for q
      using frontier_bound [OF inv, of q] True by auto
    ultimately show ?thesis by blast
  next
    case False
    then obtain cur fr where pop: "heappop (frontier st) = Inr (cur, fr)"
      using heappop_Inl [of "frontier st"] by (cases "heappop (frontier st)") auto
    show ?thesis
    proof (cases "state cur = goal m")
      case True
      from goal_popped [OF inv pop True, of alg] show ?thesis by (rule disjI2)
    next
      case ng: False
      note step = loop_body_expand [OF pop ng, of alg]
      show ?thesis
        using "1.IH" [OF step loop_body_inv [OF inv step]]
        unfolding search_loop_Next [OF step] .
    qed
  qed
qed

lemma chain_open:
  "successively (adjacent m) p \<Longrightarrow> p \<noteq> [] \<Longrightarrow> open_cell m (hd p) \<Longrightarrow> \<forall>c \<in> set p. open_cell m c"
proof (induction p)
  case Nil
  then show ?case by simp
next
  case (Cons v r)
  show ?case
  proof (cases r)
    case Nil
    then show ?thesis using Cons.prems by simp
  next
    case (Cons w r')
    then have "adjacent m v w" "successively (adjacent m) r"
      using Cons.prems by simp_all
    then have "\<forall>c \<in> set r. open_cell m c"
      using Cons.IH adjacent_open [of m v w] Cons by simp
    then show ?thesis using Cons.prems by simp
  qed
qed

lemma solve_accepted:
  "solve m alg = Inr r \<Longrightarrow> search_loop m alg (initial_state m) = Inr r"
  by (auto simp: solve_def split: if_splits)

section \<open>The states of a run and the visited set\<close>

text \<open>
  A push adds the cell to \<open>all_visited\<close> and its node to the frontier, and nothing else
  changes \<open>all_visited\<close>. So the set returned is the set the loop started with together
  with the cells of all frontiers of the run. The invariant holds in every state of a run,
  hence every pop of a run returns a node of least key \<open>g + h\<close>, whatever the selector.
\<close>

lemma search_inv_nodes: "search_inv m st \<Longrightarrow> nodes_ok m st"
  by (simp add: search_inv_def)

lemma frontier_states_visited:
  assumes "nodes_ok m st"
  shows "state ` set (frontier st) \<subseteq> all_visited st"
  using assms state_in_node_path unfolding nodes_ok_def by blast

lemma relax_visited:
  "all_visited st \<subseteq> all_visited (relax m alg cur an st) \<and>
   all_visited (relax m alg cur an st) \<subseteq> all_visited st \<union> state ` set (frontier (relax m alg cur an st)) \<and>
   set (frontier st) \<subseteq> set (frontier (relax m alg cur an st))"
  by (cases an) (auto simp: relax_eq set_heappush)

lemma fold_relax_visited:
  "all_visited st \<subseteq> all_visited (fold (relax m alg cur) ns st) \<and>
   all_visited (fold (relax m alg cur) ns st)
     \<subseteq> all_visited st \<union> state ` set (frontier (fold (relax m alg cur) ns st)) \<and>
   set (frontier st) \<subseteq> set (frontier (fold (relax m alg cur) ns st))"
proof (induction ns arbitrary: st)
  case Nil
  show ?case by simp
next
  case (Cons n ns)
  from relax_visited [of st m alg cur n] Cons.IH [of "relax m alg cur n st"]
  show ?case by (simp only: fold_Cons comp_apply) blast
qed

lemma loop_body_visited:
  assumes "loop_body m alg st = Next st'"
  shows "all_visited st \<subseteq> all_visited st'"
    and "all_visited st' \<subseteq> all_visited st \<union> state ` set (frontier st')"
proof -
  from assms obtain cur fr where
    st': "st' = fold (relax m alg cur) (neighbors m (state cur)) (st\<lparr>frontier := fr\<rparr>)"
    by (auto simp: loop_body_def split: if_splits sum.splits prod.splits)
  from fold_relax_visited [of "st\<lparr>frontier := fr\<rparr>" m alg cur "neighbors m (state cur)"]
  show "all_visited st \<subseteq> all_visited st'"
    and "all_visited st' \<subseteq> all_visited st \<union> state ` set (frontier st')"
    by (simp_all add: st')
qed

lemma search_states_Done: "loop_body m alg st = Done r \<Longrightarrow> search_states m alg st = [st]"
  by (simp add: search_states.simps [of m alg st])

lemma search_states_Next:
  "loop_body m alg st = Next st' \<Longrightarrow> search_states m alg st = st # search_states m alg st'"
  by (simp add: search_states.simps [of m alg st])

lemma search_states_head: "st \<in> set (search_states m alg st)"
  by (simp add: search_states.simps [of m alg st])

lemma pushed_states_Cons:
  "pushed_states (st # sts) = state ` set (frontier st) \<union> pushed_states sts"
  by (simp add: pushed_states_def)

lemma loop_body_Done_visited:
  "loop_body m alg st = Done (Inr (pa, vis)) \<Longrightarrow> vis = all_visited st"
  unfolding loop_body_def
  by (simp split: if_splits sum.splits prod.splits)

lemma visited_union:
  fixes A A' F F' P' vis :: "'a set"
  assumes "vis = A' \<union> P'" "F \<subseteq> A" "A \<subseteq> A'" "A' \<subseteq> A \<union> F'" "F' \<subseteq> P'"
  shows "vis = A \<union> (F \<union> P')"
  using assms by blast

lemma search_visited:
  "search_inv m st \<Longrightarrow> search_loop m alg st = Inr (pa, vis) \<Longrightarrow>
   vis = all_visited st \<union> pushed_states (search_states m alg st)"
proof (induction m alg st rule: search_loop.induct)
  case (1 m alg st)
  note inv = "1.prems"(1) and res = "1.prems"(2)
  have F: "state ` set (frontier st) \<subseteq> all_visited st"
    by (rule frontier_states_visited [OF search_inv_nodes [OF inv]])
  show ?case
  proof (cases "loop_body m alg st")
    case (Done r)
    have "r = Inr (pa, vis)" using res search_loop_Done [OF Done] by simp
    then have "vis = all_visited st"
      using Done loop_body_Done_visited [of m alg st pa vis] by simp
    moreover have "pushed_states (search_states m alg st) = state ` set (frontier st)"
      by (simp add: search_states_Done [OF Done] pushed_states_def)
    ultimately show ?thesis using F by (simp add: Un_absorb2)
  next
    case (Next st')
    have inv': "search_inv m st'" by (rule loop_body_inv [OF inv Next])
    have res': "search_loop m alg st' = Inr (pa, vis)"
      using res search_loop_Next [OF Next] by simp
    have IH: "vis = all_visited st' \<union> pushed_states (search_states m alg st')"
      by (rule "1.IH" [OF Next inv' res'])
    have F': "state ` set (frontier st') \<subseteq> pushed_states (search_states m alg st')"
      unfolding search_states.simps [of m alg st'] pushed_states_Cons by (rule Un_upper1)
    show ?thesis
      unfolding search_states_Next [OF Next] pushed_states_Cons
      by (rule visited_union [OF IH F loop_body_visited [OF Next] F'])
  qed
qed

lemma initial_visited:
  "all_visited (initial_state m) = state ` set (frontier (initial_state m))"
  by (simp add: initial_state_def set_heappush)

lemma search_states_inv:
  "search_inv m st \<Longrightarrow> \<forall>s \<in> set (search_states m alg st). search_inv m s"
proof (induction m alg st rule: search_states.induct)
  case (1 m alg st)
  show ?case
  proof (cases "loop_body m alg st")
    case (Done r)
    then show ?thesis using "1.prems" by (simp add: search_states_Done [OF Done])
  next
    case (Next st')
    then show ?thesis
      using "1.prems" "1.IH" [OF Next loop_body_inv [OF "1.prems" Next]]
      by (simp add: search_states_Next [OF Next])
  qed
qed

lemma every_pop_least_g_plus_h:
  assumes "st \<in> set (search_states m alg (initial_state m))"
    and "heappop (frontier st) = Inr (cur, fr)"
  shows "\<forall>n \<in> set (frontier st). f_key cur \<le> f_key n"
proof -
  have "search_inv m st"
    using search_states_inv [OF initial_inv, of m alg] assms(1) by blast
  then have "is_heap (frontier st)" by (simp add: search_inv_def nodes_ok_def)
  from heappop_Inr(3) [OF assms(2) this] show ?thesis .
qed

lemma Maze_init_example: "Maze_init example_grid = Inr example_maze"
  by code_simp

lemma Maze_init_walled: "Maze_init walled_grid = Inr walled_maze"
  by code_simp

section \<open>Grid construction\<close>

text \<open>The scan leaves the start (the goal) unset exactly when no cell holds the marker, and
  a start it sets is a cell of the grid that holds \<open>A\<close>.\<close>

lemma scan_cell_fst_None:
  "fst (fold (scan_cell g) ps acc) = None \<longleftrightarrow>
     fst acc = None \<and> (\<forall>(i, j) \<in> set ps. g ! i ! j \<noteq> CHR ''A'')"
  by (induction ps arbitrary: acc) (auto simp: scan_cell_def split: if_splits)

lemma scan_cell_snd_None:
  "snd (fold (scan_cell g) ps acc) = None \<longleftrightarrow>
     snd acc = None \<and> (\<forall>(i, j) \<in> set ps. g ! i ! j \<noteq> CHR ''B'')"
  by (induction ps arbitrary: acc) (auto simp: scan_cell_def split: if_splits)

lemma scan_cell_fst_Some:
  "fst (fold (scan_cell g) ps acc) = Some c \<Longrightarrow>
     fst acc = Some c \<or> (\<exists>(i, j) \<in> set ps. c = (int i, int j) \<and> g ! i ! j = CHR ''A'')"
proof (induction ps arbitrary: acc)
  case Nil
  then show ?case by simp
next
  case (Cons p ps)
  obtain i j where p: "p = (i, j)" by (cases p)
  from Cons.IH [of "scan_cell g p acc"] Cons.prems
  consider "fst (scan_cell g p acc) = Some c"
    | "\<exists>(i, j) \<in> set ps. c = (int i, int j) \<and> g ! i ! j = CHR ''A''"
    by auto
  then show ?case
  proof cases
    case 1
    then have "fst acc = Some c \<or> (c = (int i, int j) \<and> g ! i ! j = CHR ''A'')"
      by (simp add: scan_cell_def p split: if_splits)
    then show ?thesis by (auto simp: p)
  next
    case 2
    then show ?thesis by auto
  qed
qed

lemma index_pairs: "set (concat (map (\<lambda>i. map (\<lambda>j. (i, j)) [0..<w]) [0..<h])) = {0..<h} \<times> {0..<w}"
  by auto

lemma rectangle_has:
  assumes "\<forall>r \<in> set g. length r = w"
  shows "(\<exists>i < length g. \<exists>j < w. g ! i ! j = c) \<longleftrightarrow> c \<in> set (concat g)"
proof
  assume "\<exists>i < length g. \<exists>j < w. g ! i ! j = c"
  then obtain i j where ij: "i < length g" "j < w" "g ! i ! j = c" by blast
  then have "g ! i \<in> set g" "j < length (g ! i)" using assms by auto
  then show "c \<in> set (concat g)" using ij(3) by (auto intro: nth_mem)
next
  assume "c \<in> set (concat g)"
  then obtain r where r: "r \<in> set g" "c \<in> set r" by auto
  then obtain i j where "i < length g" "g ! i = r" "j < length r" "r ! j = c"
    by (auto simp: in_set_conv_nth)
  then show "\<exists>i < length g. \<exists>j < w. g ! i ! j = c" using assms r(1) by auto
qed

lemma scan_None_iff:
  assumes "\<forall>r \<in> set g. length r = w"
  shows "fst (scan g (length g) w) = None \<longleftrightarrow> marker_count CHR ''A'' g = 0"
    and "snd (scan g (length g) w) = None \<longleftrightarrow> marker_count CHR ''B'' g = 0"
  using rectangle_has [OF assms, of "CHR ''A''"] rectangle_has [OF assms, of "CHR ''B''"]
  unfolding scan_def scan_cell_fst_None scan_cell_snd_None index_pairs marker_count_def count_list_0_iff
  by auto

lemma unequal_rows_hd:
  "rows \<noteq> [] \<Longrightarrow> list_ex (\<lambda>r. length r \<noteq> length (hd rows)) rows \<longleftrightarrow> unequal_rows rows"
  unfolding unequal_rows_def list_ex_iff
  by (metis hd_in_set)

lemma Maze_init_start_open:
  assumes "Maze_init maze_str = Inr m"
  shows "open_cell m (start m)"
proof -
  let ?rows = "grid_rows maze_str"
  from assms obtain gl where
    sc: "scan ?rows (length ?rows) (length (hd ?rows)) = (Some (start m), gl)" and
    m: "maze m = ?rows" "height m = int (length ?rows)" "width m = int (length (hd ?rows))"
    by (auto simp: Maze_init_def grid_rows_def [symmetric] Let_def
             split: if_splits prod.splits option.splits)
  from sc have "fst (fold (scan_cell ?rows)
                  (concat (map (\<lambda>i. map (\<lambda>j. (i, j)) [0..<length (hd ?rows)]) [0..<length ?rows]))
                  (None, None)) = Some (start m)"
    by (simp add: scan_def)
  from scan_cell_fst_Some [OF this]
  obtain i j where "i < length ?rows" "j < length (hd ?rows)" "start m = (int i, int j)"
    "?rows ! i ! j = CHR ''A''"
    unfolding index_pairs by auto
  then show ?thesis by (simp add: open_cell_def m)
qed

section \<open>Claims about the selector, the two strategies and \<open>neighbors\<close>\<close>

text \<open>
  Claim C3, as amended. The specification calls the two selectors \<open>a-star\<close> and \<open>greedy\<close>.
  The program compares the lower-cased selector with \<open>a*\<close> and \<open>greedy\<close>: \<open>solve\<close> fails with
  \<open>InvalidStrategy\<close> exactly when the lower-cased selector is neither of the two. The test
  is the first thing \<open>solve\<close> does and its outcome does not depend on the maze, so a rejected
  selector fails before any search state exists.
\<close>

theorem selector_rejected_iff:
  "solve m algorithm = Inl InvalidStrategy \<longleftrightarrow>
     lower algorithm \<noteq> ''a*'' \<and> lower algorithm \<noteq> ''greedy''"
  by (auto simp: solve_def dest: search_loop_error)

theorem selector_rejected_iff_witness:
  "solve example_maze ''Greedy'' \<noteq> Inl InvalidStrategy \<and> solve example_maze ''best'' = Inl InvalidStrategy"
proof -
  have 1: "lower ''Greedy'' = ''greedy''" by code_simp
  have 2: "lower ''best'' = ''best''" by code_simp
  show ?thesis
    using selector_rejected_iff [of example_maze "''Greedy''"] selector_rejected_iff [of example_maze "''best''"]
    by (simp add: 1 2)
qed

text \<open>
  Claim C3 as stated fails on both sides: the selector \<open>a-star\<close> is rejected, and the selector
  \<open>GREEDY\<close>, which is neither of the two named values, is accepted and the search runs.
\<close>

theorem selector_counterexample:
  "solve example_maze ''a-star'' = Inl InvalidStrategy \<and>
   solve example_maze ''GREEDY'' =
     Inr (([(0, 0), (0, 1), (0, 2), (1, 2), (2, 2)],
           [Some ''right'', Some ''right'', Some ''down'', Some ''down'']),
          {(0, 0), (0, 1), (1, 0), (0, 2), (2, 0), (1, 2), (2, 1), (2, 2)})"
  by code_simp

text \<open>
  Claim C5. For every maze, \<open>solve\<close> with the selector \<open>a*\<close> and \<open>solve\<close> with the selector
  \<open>greedy\<close> return the same outcome: the same path, the same actions and the same visited
  set, or the same failure.
\<close>

theorem strategies_agree: "solve m ''a*'' = solve m ''greedy''"
  by (simp add: solve_def lower_a_star lower_greedy search_loop_algorithm [of m "''a*''" _ "''greedy''"])

theorem strategies_agree_witness:
  "solve example_maze ''a*'' = solve example_maze ''greedy''"
  by (rule strategies_agree)

text \<open>
  Claim C9. For every cell \<open>(i, j)\<close>, \<open>neighbors\<close> returns the candidates right, down, left,
  up, in this order, each with its action, keeping exactly those that are open (inside the
  grid and not a wall). \<open>neighbors\<close> is a function of the maze and the cell and returns the
  list only: there is no grid to hand back changed.
\<close>

theorem neighbors_fixed_order:
  "neighbors m (i, j) =
     filter (\<lambda>(a, c). open_cell m c)
       [(''right'', (i, j + 1)), (''down'', (i + 1, j)), (''left'', (i, j - 1)), (''up'', (i - 1, j))]"
  by (rule neighbors_filter)

theorem neighbors_fixed_order_witness:
  "neighbors example_maze (0, 1) = [(''right'', (0, 2)), (''left'', (0, 0))]"
proof -
  have "filter (\<lambda>(a, c). open_cell example_maze c)
       [(''right'', (0, 1 + 1)), (''down'', (0 + 1, 1)), (''left'', (0, 1 - 1)), (''up'', (0 - 1, 1))]
       = [(''right'', (0, 2)), (''left'', (0, 0))]"
    by code_simp
  then show ?thesis using neighbors_fixed_order [of example_maze 0 1] by simp
qed

text \<open>
  Claim C10. For a fixed maze and a fixed strategy, two invocations of \<open>solve\<close> have the same
  outcome. An invocation starts from \<open>initial_state\<close>, which it builds from the maze, and
  keeps nothing for the next one; the strategy is what the selector is after lower-casing,
  so two spellings of one strategy agree as well.
\<close>

theorem solve_deterministic:
  "lower a = lower b \<Longrightarrow> solve m a = r1 \<Longrightarrow> solve m b = r2 \<Longrightarrow> r1 = r2"
  by (auto simp: solve_def search_loop_algorithm [of m a _ b])

theorem solve_deterministic_witness:
  "solve example_maze ''A*'' = solve example_maze ''a*''"
proof -
  have "lower ''A*'' = lower ''a*''" by code_simp
  then show ?thesis using solve_deterministic [of "''A*''" "''a*''" example_maze] by simp
qed

section \<open>Claim about grid construction\<close>

text \<open>
  Claim C4, as amended. Construction from a text fails with \<open>MalformedGrid\<close> if and only if
  the kept rows have unequal length, or no start marker occurs in them, or no goal marker
  occurs in them. (With no kept row at all there is no start marker.)
\<close>

theorem construction_fails_iff:
  "Maze_init maze_str = Inl MalformedGrid \<longleftrightarrow>
     unequal_rows (grid_rows maze_str) \<or>
     marker_count CHR ''A'' (grid_rows maze_str) = 0 \<or>
     marker_count CHR ''B'' (grid_rows maze_str) = 0"
proof (cases "grid_rows maze_str = []")
  case True
  then show ?thesis
    by (simp add: Maze_init_def grid_rows_def [symmetric] marker_count_def)
next
  case ne: False
  show ?thesis
  proof (cases "unequal_rows (grid_rows maze_str)")
    case True
    then show ?thesis
      using ne unequal_rows_hd [OF ne]
      by (simp add: Maze_init_def grid_rows_def [symmetric])
  next
    case False
    then have rect: "\<forall>r \<in> set (grid_rows maze_str). length r = length (hd (grid_rows maze_str))"
      using unequal_rows_hd [OF ne] by (auto simp: list_ex_iff)
    obtain st gl where sc: "scan (grid_rows maze_str) (length (grid_rows maze_str))
                              (length (hd (grid_rows maze_str))) = (st, gl)"
      by (cases "scan (grid_rows maze_str) (length (grid_rows maze_str))
                   (length (hd (grid_rows maze_str)))")
    have "Maze_init maze_str = Inl MalformedGrid \<longleftrightarrow> st = None \<or> gl = None"
      using ne False unequal_rows_hd [OF ne] sc
      by (auto simp: Maze_init_def grid_rows_def [symmetric] Let_def split: option.splits)
    then show ?thesis
      using scan_None_iff [OF rect] False sc by simp
  qed
qed

theorem construction_fails_iff_witness:
  "Maze_init ''A.'' = Inl MalformedGrid \<and> Maze_init example_grid \<noteq> Inl MalformedGrid"
proof -
  have 1: "marker_count CHR ''B'' (grid_rows ''A.'') = 0" by code_simp
  have 2: "\<not> unequal_rows (grid_rows example_grid)" by code_simp
  have 3: "marker_count CHR ''A'' (grid_rows example_grid) = 1" by code_simp
  have 4: "marker_count CHR ''B'' (grid_rows example_grid) = 1" by code_simp
  show ?thesis
    using construction_fails_iff [of "''A.''"] construction_fails_iff [of example_grid]
    by (simp add: 1 2 3 4)
qed

text \<open>
  Claim C4 as stated fails: a text with two start markers and one goal in rows of equal
  length is accepted. The marker scanned last becomes the start.
\<close>

theorem construction_counterexample:
  "marker_count CHR ''A'' (grid_rows ''AAB'') = 2 \<and>
   Maze_init ''AAB'' = Inr \<lparr>maze = [''AAB''], height = 1, width = 3, start = (0, 1), goal = (0, 2)\<rparr>"
  by code_simp

section \<open>Claims about the search\<close>

text \<open>
  Claim C6. Whenever \<open>solve\<close> succeeds on a constructed grid, the returned path is valid: it
  begins at the start and ends at the goal, each cell is adjacent (per \<open>neighbors\<close>) to the
  one before it, and every cell of it is an open cell of the grid.
\<close>

theorem returned_path_valid:
  assumes "Maze_init maze_str = Inr m"
    and "solve m algorithm = Inr ((path, actions), vis)"
  shows "path \<noteq> [] \<and> hd path = start m \<and> last path = goal m \<and>
         successively (adjacent m) path \<and> (\<forall>c \<in> set path. open_cell m c)"
proof -
  have "search_loop m algorithm (initial_state m) = Inr ((path, actions), vis)"
    by (rule solve_accepted [OF assms(2)])
  with search_loop_result [OF initial_inv, of m algorithm]
  have r: "route m path" by auto
  then have "open_cell m (hd path)"
    using Maze_init_start_open [OF assms(1)] by (simp add: route_def)
  with r chain_open [of m path] show ?thesis by (simp add: route_def)
qed

theorem returned_path_valid_witness:
  "hd [(0, 0), (0, 1), (0, 2), (1, 2), (2, 2)] = start example_maze \<and>
   last [(0, 0), (0, 1), (0, 2), (1, 2), (2, 2)] = goal example_maze \<and>
   successively (adjacent example_maze) [(0, 0), (0, 1), (0, 2), (1, 2), (2, 2)]"
proof -
  have s: "solve example_maze ''a*'' =
             Inr (([(0, 0), (0, 1), (0, 2), (1, 2), (2, 2)],
                   [Some ''right'', Some ''right'', Some ''down'', Some ''down'']),
                  {(0, 0), (0, 1), (1, 0), (0, 2), (2, 0), (1, 2), (2, 1), (2, 2)})"
    by code_simp
  from returned_path_valid [OF Maze_init_example s] show ?thesis by blast
qed

text \<open>
  Claim C7. On a constructed grid and with an accepted selector (either strategy),
  \<open>solve\<close> fails with \<open>NoPathError\<close> if and only if no route leads from the start to the
  goal, and \<open>NoPathError\<close> is the only error \<open>solve\<close> ends with; in particular \<open>heappop\<close>
  is never called on an empty frontier.
\<close>

theorem no_path_iff_unreachable:
  assumes "Maze_init maze_str = Inr m"
    and "lower algorithm = ''a*'' \<or> lower algorithm = ''greedy''"
  shows "(solve m algorithm = Inl NoPathError \<longleftrightarrow> (\<forall>q. \<not> route m q)) \<and>
         (\<forall>e. solve m algorithm = Inl e \<longrightarrow> e = NoPathError)"
proof -
  have s: "solve m algorithm = search_loop m algorithm (initial_state m)"
    using assms(2) by (auto simp: solve_def)
  from search_loop_result [OF initial_inv, of m algorithm]
  have "solve m algorithm = Inl NoPathError \<longleftrightarrow> (\<forall>q. \<not> route m q)"
    unfolding s by auto
  moreover have "\<forall>e. solve m algorithm = Inl e \<longrightarrow> e = NoPathError"
    unfolding s by (auto dest: search_loop_error)
  ultimately show ?thesis by simp
qed

theorem no_path_iff_unreachable_witness:
  "solve walled_maze ''greedy'' = Inl NoPathError \<and> (\<forall>q. \<not> route walled_maze q)"
proof -
  have l: "lower ''greedy'' = ''a*'' \<or> lower ''greedy'' = ''greedy''" by code_simp
  have s: "solve walled_maze ''greedy'' = Inl NoPathError" by code_simp
  from no_path_iff_unreachable [OF Maze_init_walled l] s show ?thesis by simp
qed

text \<open>
  Claim C2. On a constructed grid with a route from the start to the goal, \<open>solve\<close> with the
  selector \<open>a*\<close> returns a path that is a route and has no more steps than any route: its
  number of steps is the shortest-path step count under unit step cost.
\<close>

theorem a_star_shortest:
  assumes "Maze_init maze_str = Inr m" and "route m q"
  shows "\<exists>path actions vis.
           solve m ''a*'' = Inr ((path, actions), vis) \<and> route m path \<and>
           (\<forall>q'. route m q' \<longrightarrow> steps path \<le> steps q')"
proof -
  have s: "solve m ''a*'' = search_loop m ''a*'' (initial_state m)"
    by (simp add: solve_def lower_a_star)
  from search_loop_result [OF initial_inv, of m "''a*''"] assms(2)
  show ?thesis unfolding s by blast
qed

theorem a_star_shortest_witness:
  "\<exists>path actions vis.
     solve example_maze ''a*'' = Inr ((path, actions), vis) \<and> route example_maze path \<and>
     steps path \<le> 4"
proof -
  have r: "route example_maze [(0, 0), (1, 0), (2, 0), (2, 1), (2, 2)]" by code_simp
  have n: "steps [(0, 0), (1, 0), (2, 0), (2, 1), (2::int, 2::int)] = 4" by code_simp
  from a_star_shortest [OF Maze_init_example r] n r show ?thesis by metis
qed

text \<open>
  Claim C8. Whenever \<open>solve\<close> returns on a constructed grid, the visited set it returns is
  the set of the cells that were in the frontier at some point of the run, the start
  included (every node is pushed in one iteration and is in the frontier when the next
  begins), and it contains every cell of the returned path.
\<close>

theorem visited_is_pushed:
  assumes "Maze_init maze_str = Inr m"
    and "solve m algorithm = Inr ((path, actions), vis)"
  shows "vis = pushed_states (search_states m algorithm (initial_state m)) \<and> set path \<subseteq> vis"
proof -
  have res: "search_loop m algorithm (initial_state m) = Inr ((path, actions), vis)"
    by (rule solve_accepted [OF assms(2)])
  have "vis = all_visited (initial_state m) \<union>
              pushed_states (search_states m algorithm (initial_state m))"
    by (rule search_visited [OF initial_inv res])
  moreover have "all_visited (initial_state m)
                   \<subseteq> pushed_states (search_states m algorithm (initial_state m))"
    using search_states_head [of "initial_state m" m algorithm]
    unfolding initial_visited pushed_states_def by blast
  moreover have "set path \<subseteq> vis"
    using search_loop_result [OF initial_inv, of m algorithm] res by auto
  ultimately show ?thesis by blast
qed

theorem visited_is_pushed_witness:
  "pushed_states (search_states example_maze ''a*'' (initial_state example_maze)) =
     {(0, 0), (0, 1), (1, 0), (0, 2), (2, 0), (1, 2), (2, 1), (2, 2)}"
proof -
  have s: "solve example_maze ''a*'' =
             Inr (([(0, 0), (0, 1), (0, 2), (1, 2), (2, 2)],
                   [Some ''right'', Some ''right'', Some ''down'', Some ''down'']),
                  {(0, 0), (0, 1), (1, 0), (0, 2), (2, 0), (1, 2), (2, 1), (2, 2)})"
    by code_simp
  from visited_is_pushed [OF Maze_init_example s] show ?thesis by simp
qed

text \<open>
  Claim C1 does not hold for the selector \<open>greedy\<close>. On the example grid the third frontier
  of the run holds a node at \<open>(1, 0)\<close> with \<open>g = 1\<close>, \<open>h = 3\<close> and a node at \<open>(0, 2)\<close> with
  \<open>g = 2\<close>, \<open>h = 2\<close>. Their keys \<open>g + h\<close> are equal and \<open>heappop\<close> returns the node at
  \<open>(1, 0)\<close>, whose \<open>h\<close> is not the least in the frontier. (Lemma
  \<open>every_pop_least_g_plus_h\<close> above is what holds for both selectors.)
\<close>

theorem greedy_pops_by_g_plus_h:
  "frontier (search_states example_maze ''greedy'' (initial_state example_maze) ! 2)
     = [Node (1, 0) (Some (Node (0, 0) None None 0 4)) (Some ''down'') 1 3,
        Node (0, 2) (Some (Node (0, 1) (Some (Node (0, 0) None None 0 4)) (Some ''right'') 1 3))
             (Some ''right'') 2 2] \<and>
   heappop [Node (1, 0) (Some (Node (0, 0) None None 0 4)) (Some ''down'') 1 3,
            Node (0, 2) (Some (Node (0, 1) (Some (Node (0, 0) None None 0 4)) (Some ''right'') 1 3))
                 (Some ''right'') 2 2]
     = Inr (Node (1, 0) (Some (Node (0, 0) None None 0 4)) (Some ''down'') 1 3,
            [Node (0, 2) (Some (Node (0, 1) (Some (Node (0, 0) None None 0 4)) (Some ''right'') 1 3))
                  (Some ''right'') 2 2]) \<and>
   h_key (Node (1, 0) (Some (Node (0, 0) None None 0 4)) (Some ''down'') 1 3) = 3 \<and>
   h_key (Node (0, 2) (Some (Node (0, 1) (Some (Node (0, 0) None None 0 4)) (Some ''right'') 1 3))
               (Some ''right'') 2 2) = 2"
proof (intro conjI)
  show "frontier (search_states example_maze ''greedy'' (initial_state example_maze) ! 2)
     = [Node (1, 0) (Some (Node (0, 0) None None 0 4)) (Some ''down'') 1 3,
        Node (0, 2) (Some (Node (0, 1) (Some (Node (0, 0) None None 0 4)) (Some ''right'') 1 3))
             (Some ''right'') 2 2]"
    by code_simp
  show "heappop [Node (1, 0) (Some (Node (0, 0) None None 0 4)) (Some ''down'') 1 3,
            Node (0, 2) (Some (Node (0, 1) (Some (Node (0, 0) None None 0 4)) (Some ''right'') 1 3))
                 (Some ''right'') 2 2]
     = Inr (Node (1, 0) (Some (Node (0, 0) None None 0 4)) (Some ''down'') 1 3,
            [Node (0, 2) (Some (Node (0, 1) (Some (Node (0, 0) None None 0 4)) (Some ''right'') 1 3))
                  (Some ''right'') 2 2])"
    by code_simp
qed (simp_all add: h_key_def)

end
